theory Spec2Isabelle
  imports Main "HOL-Library.AList" "HOL-Library.Multiset"
begin

section \<open>JavaScript values\<close>

text \<open>
  The reconciler compares objects by reference (\<^verbatim>\<open>===\<close>, \<^verbatim>\<open>Object.is\<close>) and copies their own
  enumerable properties (\<^verbatim>\<open>Object.assign\<close>). An object value therefore carries an identity
  (a number, unique per allocation) next to its property list in insertion order; a function
  value is its identity alone. Numbers are integers here: NaN and the signed zero, on which
  \<^verbatim>\<open>Object.is\<close> and \<^verbatim>\<open>===\<close> differ, are outside the model.
\<close>

datatype jsval =
    Undefined
  | Null
  | Bool bool
  | Num int
  | Str string
  | Fun nat
  | Obj nat "(string \<times> jsval) list"

datatype error = TypeError | InvariantViolation | Thrown jsval

text \<open>\<^verbatim>\<open>a === b\<close> on the values of the model: identity on objects and functions.\<close>

definition strict_equal :: "jsval \<Rightarrow> jsval \<Rightarrow> bool" where
  "strict_equal x y =
     (case x of
        Obj a _ \<Rightarrow> (case y of Obj b _ \<Rightarrow> a = b | _ \<Rightarrow> False)
      | _ \<Rightarrow> (case y of Obj _ _ \<Rightarrow> False | _ \<Rightarrow> x = y))"

text \<open>Truthiness, as \<^verbatim>\<open>if (x)\<close> and \<^verbatim>\<open>!x\<close> read a value.\<close>

fun truthy :: "jsval \<Rightarrow> bool" where
  "truthy Undefined = False"
| "truthy Null = False"
| "truthy (Bool b) = b"
| "truthy (Num n) = (n \<noteq> 0)"
| "truthy (Str s) = (s \<noteq> [])"
| "truthy (Fun _) = True"
| "truthy (Obj _ _) = True"

fun decimal :: "nat \<Rightarrow> string" where
  "decimal n = (if n < 10 then [char_of (48 + n)] else decimal (n div 10) @ [char_of (48 + n mod 10)])"

text \<open>
  The own enumerable properties \<^verbatim>\<open>Object.assign\<close> reads from a source: those of an object,
  the indexed characters of a string, none of any other value (\<^verbatim>\<open>null\<close> and \<^verbatim>\<open>undefined\<close>
  sources are skipped, functions and numbers have none).
\<close>

fun own_props :: "jsval \<Rightarrow> (string \<times> jsval) list" where
  "own_props (Obj _ ps) = ps"
| "own_props (Str s) = map (\<lambda>(i, c). (decimal i, Str [c])) (enumerate 0 s)"
| "own_props _ = []"

text \<open>\<^verbatim>\<open>Object.assign(target, source)\<close> on the property list of the target.\<close>

definition assign :: "(string \<times> jsval) list \<Rightarrow> jsval \<Rightarrow> (string \<times> jsval) list" where
  "assign target source = fold (\<lambda>(k, v). AList.update k v) (own_props source) target"


section \<open>Elements, components and instances\<close>

text \<open>
  An element (descriptor) is created fresh by every render and compared by reference, so it
  carries an identity. A host element holds its child elements; a composite element names its
  component, which a registry (the program's component definitions) resolves, and holds the
  props object. Keys and refs play no part in the operations modelled here.
\<close>

datatype element =
    HostElement nat string "element list"
  | CompositeElement nat string jsval

fun element_id :: "element \<Rightarrow> nat" where
  "element_id (HostElement n _ _) = n"
| "element_id (CompositeElement n _ _) = n"

fun element_props :: "element \<Rightarrow> jsval" where
  "element_props (HostElement _ _ _) = Null"
| "element_props (CompositeElement _ _ p) = p"

text \<open>What a \<^verbatim>\<open>render\<close> returns: \<^verbatim>\<open>undefined\<close>, \<^verbatim>\<open>null\<close> or \<^verbatim>\<open>false\<close>, an element, or
  any other value (which is not a valid node).\<close>

datatype rendered = RUndefined | REmpty | RElement element | RInvalid

text \<open>
  User code is deterministic: a lifecycle hook reads \<^verbatim>\<open>this.props\<close>, \<^verbatim>\<open>this.state\<close> and
  \<^verbatim>\<open>this.context\<close> (its first three arguments here) and its own arguments, calls
  \<^verbatim>\<open>this.setState\<close> some number of times (\<open>queued\<close>, in call order) and either returns or
  throws (\<open>raised\<close>).
\<close>

record effect =
  queued :: "jsval list"
  raised :: "error option"

type_synonym 'a hook_fn = "jsval \<Rightarrow> jsval \<Rightarrow> jsval \<Rightarrow> 'a"

record hooks =
  constructor :: "jsval \<Rightarrow> jsval \<Rightarrow> error + jsval"
  componentWillMount :: "effect hook_fn option"
  render :: "(error + rendered) hook_fn"
  unstable_handleError :: "(error \<Rightarrow> effect) hook_fn option"
  componentDidMount :: "effect hook_fn option"
  componentWillReceiveProps :: "(jsval \<Rightarrow> jsval \<Rightarrow> effect) hook_fn option"
  shouldComponentUpdate :: "(jsval \<Rightarrow> jsval \<Rightarrow> jsval \<Rightarrow> error + bool) hook_fn option"
  componentWillUpdate :: "(jsval \<Rightarrow> jsval \<Rightarrow> jsval \<Rightarrow> effect) hook_fn option"
  componentDidUpdate :: "(jsval \<Rightarrow> jsval \<Rightarrow> jsval \<Rightarrow> effect) hook_fn option"
  componentWillUnmount :: "effect hook_fn option"

text \<open>
  A component is a class (\<^verbatim>\<open>prototype.isReactComponent\<close>; the flag is
  \<^verbatim>\<open>prototype.isPureReactComponent\<close>), a plain function that returns an object with a
  \<^verbatim>\<open>render\<close> method, or a plain function of props and context that returns what it renders.
\<close>

datatype component =
    ClassComponent bool hooks
  | FactoryComponent hooks
  | FunctionalComponent "jsval \<Rightarrow> jsval \<Rightarrow> error + rendered"

type_synonym registry = "string \<Rightarrow> component option"

datatype CompositeTypes = ImpureClass | PureClass | StatelessFunctional

text \<open>The public instance \<^verbatim>\<open>inst\<close>: its methods and the fields the reconciler writes.\<close>

record pubinst =
  inst_methods :: hooks
  inst_props :: jsval
  inst_context :: jsval
  inst_state :: jsval
  inst_calledComponentWillUnmount :: bool

text \<open>
  The internal instance (\<^verbatim>\<open>this\<close> in ReactCompositeComponent), without
  \<^verbatim>\<open>_renderedComponent\<close>, which the instance tree below holds.
\<close>

record composite =
  currentElement :: element
  compositeType :: "CompositeTypes option"
  instance' :: "pubinst option"
  updateBatchNumber :: "nat option"
  pendingElement :: "element option"
  pendingStateQueue :: "jsval list option"
  pendingReplaceState :: bool
  pendingForceUpdate :: bool
  context' :: jsval
  mountOrder :: nat
  pendingCallbacks :: "nat list option"
  calledComponentWillUnmount :: bool

text \<open>\<^verbatim>\<open>construct(element)\<close>: the fields of a new internal instance.\<close>

definition construct :: "element \<Rightarrow> composite" where
  "construct element =
     \<lparr>currentElement = element, compositeType = None, instance' = None,
      updateBatchNumber = None, pendingElement = None, pendingStateQueue = None,
      pendingReplaceState = False, pendingForceUpdate = False, context' = Null, mountOrder = 0,
      pendingCallbacks = None, calledComponentWillUnmount = False\<rparr>"

section \<open>Merging the pending state queue\<close>

text \<open>
  An updater function passed to \<^verbatim>\<open>setState\<close> is called as
  \<^verbatim>\<open>partial.call(inst, nextState, props, context)\<close> and returns a partial state. Updaters are
  pure; the table gives, for the identity of a function value, what it returns.
\<close>

type_synonym updaters = "nat \<Rightarrow> pubinst option \<Rightarrow> jsval \<Rightarrow> jsval \<Rightarrow> jsval \<Rightarrow> jsval"

text \<open>One turn of the loop of \<^verbatim>\<open>_processPendingState\<close>, on the properties of \<^verbatim>\<open>nextState\<close>
  (an object of identity \<open>oid\<close>).\<close>

definition merge_partial ::
  "updaters \<Rightarrow> pubinst option \<Rightarrow> nat \<Rightarrow> jsval \<Rightarrow> jsval \<Rightarrow> jsval \<Rightarrow> (string \<times> jsval) list
    \<Rightarrow> (string \<times> jsval) list" where
  "merge_partial fns inst oid props context partial nextState =
     assign nextState
       (case partial of
          Fun f \<Rightarrow> fns f inst (Obj oid nextState) props context
        | _ \<Rightarrow> partial)"

text \<open>
  \<^verbatim>\<open>_processPendingState(props, context)\<close>. It returns the thrown error or the returned value,
  the instance with the queue and the replace flag cleared, and the next free object
  identity: \<^verbatim>\<open>Object.assign({}, ...)\<close> allocates one object, the two early returns none.
  Reading \<^verbatim>\<open>inst.state\<close> of an absent \<^verbatim>\<open>inst\<close> is a TypeError; \<^verbatim>\<open>queue[0]\<close> of an empty
  array is \<^verbatim>\<open>undefined\<close>.
\<close>

definition processPendingState ::
  "updaters \<Rightarrow> composite \<Rightarrow> jsval \<Rightarrow> jsval \<Rightarrow> nat \<Rightarrow> (error + jsval) \<times> composite \<times> nat" where
  "processPendingState fns this props context oid =
     (let inst = instance' this;
          queue = pendingStateQueue this;
          replace = pendingReplaceState this;
          this1 = this\<lparr>pendingReplaceState := False, pendingStateQueue := None\<rparr>
      in case queue of
           None \<Rightarrow>
             (case inst of
                None \<Rightarrow> (Inl TypeError, this1, oid)
              | Some i \<Rightarrow> (Inr (inst_state i), this1, oid))
         | Some q \<Rightarrow>
             if replace \<and> length q = 1 then (Inr (q ! 0), this1, oid)
             else
               (case (if replace then Inr (case q of [] \<Rightarrow> Undefined | s # _ \<Rightarrow> s)
                      else (case inst of None \<Rightarrow> Inl TypeError | Some i \<Rightarrow> Inr (inst_state i))) of
                  Inl e \<Rightarrow> (Inl e, this1, oid)
                | Inr start \<Rightarrow>
                    (Inr (Obj oid
                       (fold (merge_partial fns inst oid props context)
                          (drop (if replace then 1 else 0) q)
                          (assign [] start))),
                     this1, Suc oid)))"


section \<open>Updating a mounted component\<close>

text \<open>
  The components of the model declare neither \<^verbatim>\<open>contextTypes\<close> nor \<^verbatim>\<open>getChildContext\<close>.
  \<^verbatim>\<open>_maskContext\<close> then returns the shared \<^verbatim>\<open>emptyObject\<close>, whatever the unmasked context, and
  \<^verbatim>\<open>_processChildContext\<close> returns its argument.
\<close>

definition emptyObject :: jsval where
  "emptyObject = Obj 0 []"

definition processContext :: "jsval \<Rightarrow> jsval" where
  "processContext context = emptyObject"

text \<open>
  Modelled from the spec: \<^verbatim>\<open>shallowEqual\<close>, a library function that is not in the sources; the
  spec calls it a shallow (one-level key/value) comparison. Two values are shallowly equal
  when they are the same value, or both are objects with the same number of own keys and
  every key of the first is a key of the second with the same value.
\<close>

definition shallowEqual :: "jsval \<Rightarrow> jsval \<Rightarrow> bool" where
  "shallowEqual objA objB =
     (if strict_equal objA objB then True
      else case objA of
        Obj _ keysA \<Rightarrow>
          (case objB of
             Obj _ keysB \<Rightarrow>
               length keysA = length keysB \<and>
               list_all (\<lambda>(k, v). case map_of keysB k of
                                     None \<Rightarrow> False
                                   | Some w \<Rightarrow> strict_equal v w) keysA
           | _ \<Rightarrow> False)
      | _ \<Rightarrow> False)"

text \<open>
  Modelled from the spec: \<^verbatim>\<open>this.setState(partial)\<close> inside a hook goes through the update
  queue handle, which is not in the sources; by the spec the state a hook queues is merged in
  the next merge rather than triggering a recursive update. Each call appends to
  \<^verbatim>\<open>_pendingStateQueue\<close>, creating the array when there is none.
\<close>

definition enqueueSetState :: "jsval list \<Rightarrow> composite \<Rightarrow> composite" where
  "enqueueSetState partials this =
     (if partials = [] then this
      else this\<lparr>pendingStateQueue :=
             Some ((case pendingStateQueue this of None \<Rightarrow> [] | Some q \<Rightarrow> q) @ partials)\<rparr>)"

text \<open>Running a hook: its \<^verbatim>\<open>setState\<close> calls are queued on the instance, then it returns or
  throws.\<close>

definition run_hook :: "effect \<Rightarrow> composite \<Rightarrow> error option \<times> composite" where
  "run_hook eff this = (raised eff, enqueueSetState (queued eff) this)"

text \<open>
  \<^verbatim>\<open>updateComponent\<close> ends in the call
  \<^verbatim>\<open>this._performComponentUpdate(nextParentElement, nextProps, nextState, nextContext,
  transaction, nextUnmaskedContext)\<close>, which re-renders and reconciles the child through the
  host reconciler, or in the assignments that only commit the next values. The model returns
  which of the two happens, with the arguments of the call.
\<close>

datatype update_request =
    PerformComponentUpdate element jsval jsval jsval jsval
  | NoUpdate

text \<open>The first part of \<^verbatim>\<open>updateComponent\<close>: the next context and \<^verbatim>\<open>willReceive\<close>.\<close>

definition next_context :: "composite \<Rightarrow> pubinst \<Rightarrow> jsval \<Rightarrow> jsval \<times> bool" where
  "next_context this inst nextUnmaskedContext =
     (if strict_equal (context' this) nextUnmaskedContext then (inst_context inst, False)
      else (processContext nextUnmaskedContext, True))"

text \<open>The call of \<^verbatim>\<open>componentWillReceiveProps\<close>, when \<^verbatim>\<open>willReceive\<close> holds and the hook exists.\<close>

definition receive_props ::
  "composite \<Rightarrow> pubinst \<Rightarrow> bool \<Rightarrow> jsval \<Rightarrow> jsval \<Rightarrow> error option \<times> composite" where
  "receive_props this inst willReceive nextProps nextContext =
     (case (if willReceive then componentWillReceiveProps (inst_methods inst) else None) of
        None \<Rightarrow> (None, this)
      | Some hook \<Rightarrow>
          run_hook (hook (inst_props inst) (inst_state inst) (inst_context inst)
                      nextProps nextContext) this)"

text \<open>The computation of \<^verbatim>\<open>shouldUpdate\<close>; the \<^verbatim>\<open>shouldComponentUpdate\<close> hook may throw.\<close>

definition shouldUpdate ::
  "composite \<Rightarrow> pubinst \<Rightarrow> jsval \<Rightarrow> jsval \<Rightarrow> jsval \<Rightarrow> jsval \<Rightarrow> error + bool" where
  "shouldUpdate this inst prevProps nextProps nextState nextContext =
     (if \<not> pendingForceUpdate this then
        (case shouldComponentUpdate (inst_methods inst) of
           Some hook \<Rightarrow>
             hook (inst_props inst) (inst_state inst) (inst_context inst)
               nextProps nextState nextContext
         | None \<Rightarrow>
             if compositeType this = Some PureClass
             then Inr (\<not> shallowEqual prevProps nextProps \<or>
                       \<not> shallowEqual (inst_state inst) nextState)
             else Inr True)
      else Inr True)"

definition updateComponent ::
  "updaters \<Rightarrow> composite \<Rightarrow> element \<Rightarrow> element \<Rightarrow> jsval \<Rightarrow> jsval \<Rightarrow> nat
    \<Rightarrow> (error + update_request) \<times> composite \<times> nat" where
  "updateComponent fns this prevParentElement nextParentElement prevUnmaskedContext
       nextUnmaskedContext oid =
     (case instance' this of
        None \<Rightarrow> (Inl TypeError, this, oid)
      | Some inst \<Rightarrow>
          let (nextContext, contextChanged) = next_context this inst nextUnmaskedContext;
              prevProps = element_props prevParentElement;
              nextProps = element_props nextParentElement;
              willReceive =
                (contextChanged \<or> element_id prevParentElement \<noteq> element_id nextParentElement);
              (thrown, this1) = receive_props this inst willReceive nextProps nextContext
          in case thrown of
               Some e \<Rightarrow> (Inl e, this1, oid)
             | None \<Rightarrow>
                 (case processPendingState fns this1 nextProps nextContext oid of
                    (Inl e, this2, oid2) \<Rightarrow> (Inl e, this2, oid2)
                  | (Inr nextState, this2, oid2) \<Rightarrow>
                      (case shouldUpdate this2 inst prevProps nextProps nextState nextContext of
                         Inl e \<Rightarrow> (Inl e, this2, oid2)
                       | Inr should \<Rightarrow>
                           let this3 = this2\<lparr>updateBatchNumber := None\<rparr>
                           in if should then
                                (Inr (PerformComponentUpdate nextParentElement nextProps
                                        nextState nextContext nextUnmaskedContext),
                                 this3\<lparr>pendingForceUpdate := False\<rparr>, oid2)
                              else
                                (Inr NoUpdate,
                                 this3\<lparr>currentElement := nextParentElement,
                                       context' := nextUnmaskedContext,
                                       instance' :=
                                         Some (inst\<lparr>inst_props := nextProps,
                                                     inst_state := nextState,
                                                     inst_context := nextContext\<rparr>)\<rparr>,
                                 oid2))))"


section \<open>CallbackQueue\<close>

text \<open>
  A callback queue holds two arrays, or \<^verbatim>\<open>null\<close> for either. Arrays are objects: the queue's
  fields and the local variables of \<^verbatim>\<open>notifyAll\<close> may refer to the same array, so arrays live
  in a store and the fields hold addresses. A slot of a callback array that was never written
  (after \<^verbatim>\<open>length\<close> was set beyond the end) is a hole.

  A callback is user code. What it can do to the queue it is called from is to enqueue
  further callbacks, and it may throw; a callback of the model is a name and the list of
  these actions in execution order. The world also records each invocation (name, context,
  argument).
\<close>

datatype action = Enqueue callback jsval | Raise error
and callback = Callback nat "action list"

record queue_world =
  callbacks_field :: "nat option"
  contexts_field :: "nat option"
  arg_field :: jsval
  callback_arrays :: "nat \<Rightarrow> callback option list"
  context_arrays :: "nat \<Rightarrow> jsval list"
  next_array :: nat
  invoked :: "(nat \<times> jsval \<times> jsval) list"

text \<open>\<^verbatim>\<open>new CallbackQueue(arg)\<close> in a world with the given store.\<close>

definition new_queue :: "jsval \<Rightarrow> queue_world" where
  "new_queue arg =
     \<lparr>callbacks_field = None, contexts_field = None, arg_field = arg,
      callback_arrays = (\<lambda>_. []), context_arrays = (\<lambda>_. []), next_array = 0, invoked = []\<rparr>"

text \<open>\<^verbatim>\<open>enqueue(callback, context)\<close>: \<^verbatim>\<open>this._callbacks = this._callbacks || []\<close> allocates
  an array when the field is \<^verbatim>\<open>null\<close>; then the push.\<close>

definition enqueue :: "callback \<Rightarrow> jsval \<Rightarrow> queue_world \<Rightarrow> queue_world" where
  "enqueue callback context w =
     (let w1 = (case callbacks_field w of
                  Some a \<Rightarrow> w
                | None \<Rightarrow> w\<lparr>callbacks_field := Some (next_array w),
                             callback_arrays := (callback_arrays w)(next_array w := []),
                             next_array := Suc (next_array w)\<rparr>);
          a = the (callbacks_field w1);
          w2 = w1\<lparr>callback_arrays :=
                    (callback_arrays w1)(a := callback_arrays w1 a @ [Some callback])\<rparr>;
          w3 = (case contexts_field w2 of
                  Some b \<Rightarrow> w2
                | None \<Rightarrow> w2\<lparr>contexts_field := Some (next_array w2),
                              context_arrays := (context_arrays w2)(next_array w2 := []),
                              next_array := Suc (next_array w2)\<rparr>);
          b = the (contexts_field w3)
      in w3\<lparr>context_arrays := (context_arrays w3)(b := context_arrays w3 b @ [context])\<rparr>)"

text \<open>Calling a callback records the invocation and runs its actions; a throw ends it.\<close>

fun call :: "callback \<Rightarrow> jsval \<Rightarrow> jsval \<Rightarrow> queue_world \<Rightarrow> error option \<times> queue_world"
  and run_actions :: "action list \<Rightarrow> queue_world \<Rightarrow> error option \<times> queue_world" where
  "call (Callback name body) context arg w =
     run_actions body (w\<lparr>invoked := invoked w @ [(name, context, arg)]\<rparr>)"
| "run_actions [] w = (None, w)"
| "run_actions (Enqueue callback context # rest) w = run_actions rest (enqueue callback context w)"
| "run_actions (Raise e # rest) w = (Some e, w)"

text \<open>
  The loop of \<^verbatim>\<open>notifyAll\<close>, on the local variables \<^verbatim>\<open>callbacks\<close> and \<^verbatim>\<open>contexts\<close> (two
  addresses). It reads \<^verbatim>\<open>callbacks.length\<close> from the store at every turn, so that it ends
  is a property to prove, not one of the definition. Calling a hole is a TypeError; reading
  \<^verbatim>\<open>contexts[i]\<close> beyond the end gives \<^verbatim>\<open>undefined\<close>.
\<close>

partial_function (option) notify_loop ::
  "nat \<Rightarrow> nat \<Rightarrow> jsval \<Rightarrow> nat \<Rightarrow> queue_world \<Rightarrow> (error option \<times> queue_world) option" where
  "notify_loop callbacks contexts arg i w =
     (if i < length (callback_arrays w callbacks) then
        (case callback_arrays w callbacks ! i of
           None \<Rightarrow> Some (Some TypeError, w)
         | Some callback \<Rightarrow>
             (case call callback
                     (if i < length (context_arrays w contexts)
                      then context_arrays w contexts ! i else Undefined) arg w of
                (Some e, w1) \<Rightarrow> Some (Some e, w1)
              | (None, w1) \<Rightarrow> notify_loop callbacks contexts arg (Suc i) w1))
      else Some (None, w))"

definition notifyAll :: "queue_world \<Rightarrow> (error option \<times> queue_world) option" where
  "notifyAll w =
     (case (callbacks_field w, contexts_field w) of
        (Some callbacks, Some contexts) \<Rightarrow>
          (case notify_loop callbacks contexts (arg_field w) 0
                  (w\<lparr>callbacks_field := None, contexts_field := None\<rparr>) of
             None \<Rightarrow> None
           | Some (Some e, w1) \<Rightarrow> Some (Some e, w1)
           | Some (None, w1) \<Rightarrow>
               Some (None, w1\<lparr>callback_arrays := (callback_arrays w1)(callbacks := []),
                               context_arrays := (context_arrays w1)(contexts := [])\<rparr>))
      | _ \<Rightarrow> Some (None, w))"

definition checkpoint :: "queue_world \<Rightarrow> nat" where
  "checkpoint w =
     (case callbacks_field w of Some a \<Rightarrow> length (callback_arrays w a) | None \<Rightarrow> 0)"

text \<open>Setting \<^verbatim>\<open>length\<close> of an array truncates it or extends it with holes.\<close>

definition set_length :: "'a \<Rightarrow> nat \<Rightarrow> 'a list \<Rightarrow> 'a list" where
  "set_length hole len xs = take len xs @ replicate (len - length xs) hole"

definition rollback :: "nat \<Rightarrow> queue_world \<Rightarrow> queue_world" where
  "rollback len w =
     (case (callbacks_field w, contexts_field w) of
        (Some a, Some b) \<Rightarrow>
          (let w1 = w\<lparr>callback_arrays :=
                       (callback_arrays w)(a := set_length None len (callback_arrays w a))\<rparr>
           in w1\<lparr>context_arrays :=
                    (context_arrays w1)(b := set_length Undefined len (context_arrays w1 b))\<rparr>)
      | _ \<Rightarrow> w)"

definition reset :: "queue_world \<Rightarrow> queue_world" where
  "reset w = w\<lparr>callbacks_field := None, contexts_field := None\<rparr>"

text \<open>The pairs the queue holds, in order: what the next \<^verbatim>\<open>notifyAll\<close> will visit.\<close>

definition queued_pairs :: "queue_world \<Rightarrow> (callback option \<times> jsval) list" where
  "queued_pairs w =
     (case (callbacks_field w, contexts_field w) of
        (Some a, Some b) \<Rightarrow> zip (callback_arrays w a) (context_arrays w b)
      | _ \<Rightarrow> [])"

text \<open>What the actions of a callback enqueue, and whether they throw.\<close>

fun enqueued_by :: "action list \<Rightarrow> (callback option \<times> jsval) list" where
  "enqueued_by [] = []"
| "enqueued_by (Enqueue callback context # rest) = (Some callback, context) # enqueued_by rest"
| "enqueued_by (Raise e # rest) = []"

fun returns :: "action list \<Rightarrow> bool" where
  "returns [] = True"
| "returns (Enqueue callback context # rest) = returns rest"
| "returns (Raise e # rest) = False"

fun callback_name :: "callback \<Rightarrow> nat" where
  "callback_name (Callback name body) = name"

fun callback_body :: "callback \<Rightarrow> action list" where
  "callback_body (Callback name body) = body"

text \<open>
  Two invariants of the store. A queue is in order when its two fields are both \<^verbatim>\<open>null\<close>
  or refer to allocated arrays of one length. Two arrays are detached when they are allocated
  and the fields of the queue do not refer to them.
\<close>

definition queue_ok :: "queue_world \<Rightarrow> bool" where
  "queue_ok w =
     (case (callbacks_field w, contexts_field w) of
        (None, None) \<Rightarrow> True
      | (Some a, Some b) \<Rightarrow>
          a < next_array w \<and> b < next_array w \<and>
          length (callback_arrays w a) = length (context_arrays w b)
      | _ \<Rightarrow> False)"

definition detached :: "nat \<Rightarrow> nat \<Rightarrow> queue_world \<Rightarrow> bool" where
  "detached a b w =
     (callbacks_field w \<noteq> Some a \<and> contexts_field w \<noteq> Some b \<and>
      a < next_array w \<and> b < next_array w)"


section \<open>Instance trees\<close>

text \<open>
  A mounted tree. A composite instance owns the one child its render produced
  (\<^verbatim>\<open>_renderedComponent\<close>, \<^verbatim>\<open>null\<close> before the first mount and after unmount); a host
  instance owns the instances of its child elements; an empty instance stands for a
  \<^verbatim>\<open>null\<close> or \<^verbatim>\<open>false\<close> render.
\<close>

datatype instance_tree =
    EmptyInstance
  | HostInstance element "instance_tree list"
  | CompositeInstance composite "instance_tree option"

text \<open>
  What the operations record, in execution order. A composite instance is named by its mount
  order.
\<close>

datatype event =
    Stamped nat
  | WillMount nat
  | Rendered nat
  | ChildStored nat
  | DidMountEnqueued nat
  | HandledError nat error
  | WillUnmount nat
  | Checkpoint nat
  | Rollback nat

text \<open>
  The state outside the instances: the counter \<^verbatim>\<open>nextMountID\<close>, the next free object
  identity, the queue of the enclosing transaction, the error slot of the guarded calls, and
  the record of events.

  Modelled from the spec: the reconcile transaction is not in the sources. By the spec its
  \<^verbatim>\<open>checkpoint()\<close> and \<^verbatim>\<open>rollback(n)\<close> forward to the callback queue it holds, and
  \<^verbatim>\<open>componentDidMount\<close> is enqueued on that queue; the queue is the list of the instances
  whose hook is enqueued, \<^verbatim>\<open>checkpoint\<close> its length and \<^verbatim>\<open>rollback(n)\<close> the cut back to \<open>n\<close>.
\<close>

record world =
  nextMountID :: nat
  nextObject :: nat
  mountReady :: "nat list"
  caughtError :: "error option"
  trace :: "event list"

definition record_event :: "event \<Rightarrow> world \<Rightarrow> world" where
  "record_event ev w = w\<lparr>trace := trace w @ [ev]\<rparr>"

definition transaction_checkpoint :: "world \<Rightarrow> nat \<times> world" where
  "transaction_checkpoint w =
     (length (mountReady w), record_event (Checkpoint (length (mountReady w))) w)"

definition transaction_rollback :: "nat \<Rightarrow> world \<Rightarrow> world" where
  "transaction_rollback n w = record_event (Rollback n) (w\<lparr>mountReady := take n (mountReady w)\<rparr>)"

text \<open>
  Modelled from the spec: the guarded call of the error utilities, which are not in the
  sources, captures and defers a thrown error. The first captured error is kept for a later
  rethrow; the call itself returns.
\<close>

definition invokeGuardedCallback :: "error option \<Rightarrow> world \<Rightarrow> world" where
  "invokeGuardedCallback thrown w =
     (case thrown of
        None \<Rightarrow> w
      | Some e \<Rightarrow> (case caughtError w of None \<Rightarrow> w\<lparr>caughtError := Some e\<rparr> | Some _ \<Rightarrow> w))"

section \<open>Unmounting\<close>

text \<open>The fields \<^verbatim>\<open>unmountComponent\<close> resets once the child is unmounted.\<close>

definition released :: "composite \<Rightarrow> composite" where
  "released this =
     this\<lparr>instance' := None, pendingStateQueue := None, pendingReplaceState := False,
          pendingForceUpdate := False, pendingCallbacks := None, pendingElement := None,
          context' := Null\<rparr>"

text \<open>
  The first part of \<^verbatim>\<open>unmountComponent(safely)\<close>: the call of \<^verbatim>\<open>componentWillUnmount\<close>,
  guarded or direct, unless the hook is absent or has been called on this \<^verbatim>\<open>inst\<close> before.
  The flag is set before the call.
\<close>

definition callComponentWillUnmount ::
  "bool \<Rightarrow> composite \<Rightarrow> pubinst \<Rightarrow> world \<Rightarrow> error option \<times> composite \<times> world" where
  "callComponentWillUnmount safely this inst w =
     (case componentWillUnmount (inst_methods inst) of
        None \<Rightarrow> (None, this, w)
      | Some hook \<Rightarrow>
          if inst_calledComponentWillUnmount inst then (None, this, w)
          else
            (let this1 = this\<lparr>instance' := Some (inst\<lparr>inst_calledComponentWillUnmount := True\<rparr>)\<rparr>;
                 w1 = record_event (WillUnmount (mountOrder this)) w;
                 (thrown, this2) =
                   run_hook (hook (inst_props inst) (inst_state inst) (inst_context inst)) this1
             in if safely then (None, this2, invokeGuardedCallback thrown w1)
                else (thrown, this2, w1)))"

text \<open>
  \<^verbatim>\<open>unmountComponent(safely)\<close> of a composite instance, and, modelled from the spec, the
  polymorphic unmount of the host reconciler, which is not in the sources: an empty instance
  has nothing to release, and a host instance unmounts its children in order with the same
  flag. A thrown error leaves the instances as they are at the throw.
\<close>

fun unmountComponent :: "bool \<Rightarrow> instance_tree \<Rightarrow> world \<Rightarrow> error option \<times> instance_tree \<times> world"
  and unmountChildren ::
    "bool \<Rightarrow> instance_tree list \<Rightarrow> world \<Rightarrow> error option \<times> instance_tree list \<times> world" where
  "unmountComponent safely EmptyInstance w = (None, EmptyInstance, w)"
| "unmountComponent safely (HostInstance element children) w =
     (case unmountChildren safely children w of
        (Some e, children1, w1) \<Rightarrow> (Some e, HostInstance element children1, w1)
      | (None, children1, w1) \<Rightarrow> (None, HostInstance element [], w1))"
| "unmountComponent safely (CompositeInstance this None) w =
     (None, CompositeInstance this None, w)"
| "unmountComponent safely (CompositeInstance this (Some child)) w =
     (case instance' this of
        None \<Rightarrow> (Some TypeError, CompositeInstance this (Some child), w)
      | Some inst \<Rightarrow>
          (case callComponentWillUnmount safely this inst w of
             (Some e, this1, w1) \<Rightarrow> (Some e, CompositeInstance this1 (Some child), w1)
           | (None, this1, w1) \<Rightarrow>
               (case unmountComponent safely child w1 of
                  (Some e, child1, w2) \<Rightarrow> (Some e, CompositeInstance this1 (Some child1), w2)
                | (None, child1, w2) \<Rightarrow> (None, CompositeInstance (released this1) None, w2))))"
| "unmountChildren safely [] w = (None, [], w)"
| "unmountChildren safely (child # children) w =
     (case unmountComponent safely child w of
        (Some e, child1, w1) \<Rightarrow> (Some e, child1 # children, w1)
      | (None, child1, w1) \<Rightarrow>
          (case unmountChildren safely children w1 of
             (thrown, children1, w2) \<Rightarrow> (thrown, child1 # children1, w2)))"


section \<open>Mounting\<close>

text \<open>
  Modelled from the spec: the classification of a rendered node and the creation of the child
  instance are not in the sources (\<^verbatim>\<open>_instantiateReactComponent\<close> is injected). By the spec
  the child descriptor is classified as empty, host or composite, and a corresponding
  instance is created; a value that is no node is an invariant violation. A new composite
  instance has the fields of \<^verbatim>\<open>construct\<close>.
\<close>

datatype NodeTypes = HOST | COMPOSITE | EMPTY

definition getType :: "rendered \<Rightarrow> error + NodeTypes" where
  "getType node =
     (case node of
        REmpty \<Rightarrow> Inr EMPTY
      | RElement (HostElement _ _ _) \<Rightarrow> Inr HOST
      | RElement (CompositeElement _ _ _) \<Rightarrow> Inr COMPOSITE
      | _ \<Rightarrow> Inl InvariantViolation)"

definition instantiateReactComponent :: "rendered \<Rightarrow> error + instance_tree" where
  "instantiateReactComponent node =
     (case node of
        REmpty \<Rightarrow> Inr EmptyInstance
      | RElement (HostElement n tag children) \<Rightarrow> Inr (HostInstance (HostElement n tag children) [])
      | RElement (CompositeElement n name props) \<Rightarrow>
          Inr (CompositeInstance (construct (CompositeElement n name props)) None)
      | _ \<Rightarrow> Inl InvariantViolation)"

fun instantiateChild :: "element \<Rightarrow> instance_tree" where
  "instantiateChild (HostElement n tag children) = HostInstance (HostElement n tag children) []"
| "instantiateChild (CompositeElement n name props) =
     CompositeInstance (construct (CompositeElement n name props)) None"

fun element_children :: "element \<Rightarrow> element list" where
  "element_children (HostElement _ _ children) = children"
| "element_children (CompositeElement _ _ _) = []"

text \<open>
  The \<^verbatim>\<open>if (this._pendingStateQueue) inst.state = this._processPendingState(inst.props,
  inst.context)\<close> that follows a hook called during mount.
\<close>

definition mergePendingState ::
  "updaters \<Rightarrow> composite \<Rightarrow> world \<Rightarrow> error option \<times> composite \<times> world" where
  "mergePendingState fns this w =
     (case pendingStateQueue this of
        None \<Rightarrow> (None, this, w)
      | Some q \<Rightarrow>
          (case instance' this of
             None \<Rightarrow> (Some TypeError, this, w)
           | Some inst \<Rightarrow>
               (case processPendingState fns this (inst_props inst) (inst_context inst)
                       (nextObject w) of
                  (Inl e, this1, oid) \<Rightarrow> (Some e, this1, w\<lparr>nextObject := oid\<rparr>)
                | (Inr merged, this1, oid) \<Rightarrow>
                    (None, this1\<lparr>instance' := Some (inst\<lparr>inst_state := merged\<rparr>)\<rparr>,
                     w\<lparr>nextObject := oid\<rparr>))))"

type_synonym mounter =
  "instance_tree \<Rightarrow> jsval \<Rightarrow> world \<Rightarrow> (error option \<times> instance_tree \<times> world) option"

text \<open>
  The parts of \<^verbatim>\<open>performInitialMount\<close> before the descent: the call of
  \<^verbatim>\<open>componentWillMount\<close> with the merge of the state it queued, and the render (skipped when
  a rendered element is given) with the creation of the child instance.
\<close>

definition callComponentWillMount ::
  "updaters \<Rightarrow> composite \<Rightarrow> pubinst \<Rightarrow> world \<Rightarrow> error option \<times> composite \<times> world" where
  "callComponentWillMount fns this inst w =
     (case componentWillMount (inst_methods inst) of
        None \<Rightarrow> (None, this, w)
      | Some hook \<Rightarrow>
          (case run_hook (hook (inst_props inst) (inst_state inst) (inst_context inst)) this of
             (Some e, this1) \<Rightarrow> (Some e, this1, record_event (WillMount (mountOrder this)) w)
           | (None, this1) \<Rightarrow>
               mergePendingState fns this1 (record_event (WillMount (mountOrder this)) w)))"

definition renderChild ::
  "composite \<Rightarrow> pubinst \<Rightarrow> rendered \<Rightarrow> world \<Rightarrow> (error + instance_tree) \<times> world" where
  "renderChild this inst renderedElement w =
     (case (if renderedElement = RUndefined
            then (render (inst_methods inst) (inst_props inst) (inst_state inst)
                    (inst_context inst),
                  record_event (Rendered (mountOrder this)) w)
            else (Inr renderedElement, w)) of
        (Inl e, w1) \<Rightarrow> (Inl e, w1)
      | (Inr node, w1) \<Rightarrow>
          (case getType node of
             Inl e \<Rightarrow> (Inl e, w1)
           | Inr nodeType \<Rightarrow> (instantiateReactComponent node, w1)))"

text \<open>
  \<^verbatim>\<open>performInitialMount\<close>. The internal instance is the pair of its fields and its
  \<^verbatim>\<open>_renderedComponent\<close>; \<open>mount_child\<close> is \<^verbatim>\<open>ReactReconciler.mountComponent\<close>. The child
  is stored in \<^verbatim>\<open>_renderedComponent\<close> before it is mounted. The result is \<open>None\<close> when the
  child's mount does not return.
\<close>

definition performInitialMount ::
  "mounter \<Rightarrow> updaters \<Rightarrow> composite \<Rightarrow> instance_tree option \<Rightarrow> rendered \<Rightarrow> jsval \<Rightarrow> world
    \<Rightarrow> (error option \<times> composite \<times> instance_tree option \<times> world) option" where
  "performInitialMount mount_child fns this renderedComponent renderedElement context w =
     (case instance' this of
        None \<Rightarrow> Some (Some TypeError, this, renderedComponent, w)
      | Some inst \<Rightarrow>
          (case callComponentWillMount fns this inst w of
             (Some e, this1, w1) \<Rightarrow> Some (Some e, this1, renderedComponent, w1)
           | (None, this1, w1) \<Rightarrow>
               (case instance' this1 of
                  None \<Rightarrow> Some (Some TypeError, this1, renderedComponent, w1)
                | Some inst1 \<Rightarrow>
                    (case renderChild this1 inst1 renderedElement w1 of
                       (Inl e, w2) \<Rightarrow> Some (Some e, this1, renderedComponent, w2)
                     | (Inr child, w2) \<Rightarrow>
                         (case mount_child child context
                                 (record_event (ChildStored (mountOrder this1)) w2) of
                            None \<Rightarrow> None
                          | Some (thrown, child1, w3) \<Rightarrow>
                              Some (thrown, this1, Some child1, w3))))))"

text \<open>
  The first statements of the \<^verbatim>\<open>catch\<close> block of
  \<^verbatim>\<open>performInitialMountWithErrorHandling\<close>: the rollback, the call of the error hook with
  the caught error, and the merge of the state it queued.
\<close>

definition handleError ::
  "updaters \<Rightarrow> nat \<Rightarrow> composite \<Rightarrow> error \<Rightarrow> world \<Rightarrow> error option \<times> composite \<times> world" where
  "handleError fns checkpoint1 this e w =
     (case instance' this of
        None \<Rightarrow> (Some TypeError, this, transaction_rollback checkpoint1 w)
      | Some inst \<Rightarrow>
          (case unstable_handleError (inst_methods inst) of
             None \<Rightarrow> (Some TypeError, this, transaction_rollback checkpoint1 w)
           | Some hook \<Rightarrow>
               (case run_hook (hook (inst_props inst) (inst_state inst) (inst_context inst) e)
                       this of
                  (Some e2, this1) \<Rightarrow>
                    (Some e2, this1,
                     record_event (HandledError (mountOrder this) e)
                       (transaction_rollback checkpoint1 w))
                | (None, this1) \<Rightarrow>
                    mergePendingState fns this1
                      (record_event (HandledError (mountOrder this) e)
                         (transaction_rollback checkpoint1 w)))))"

text \<open>
  \<^verbatim>\<open>performInitialMountWithErrorHandling\<close>. In the \<^verbatim>\<open>catch\<close> block,
  \<^verbatim>\<open>this._renderedComponent.unmountComponent(true)\<close> reads a property of
  \<^verbatim>\<open>this._renderedComponent\<close>: a TypeError when that is \<^verbatim>\<open>null\<close>.
\<close>

definition performInitialMountWithErrorHandling ::
  "mounter \<Rightarrow> updaters \<Rightarrow> composite \<Rightarrow> instance_tree option \<Rightarrow> rendered \<Rightarrow> jsval \<Rightarrow> world
    \<Rightarrow> (error option \<times> composite \<times> instance_tree option \<times> world) option" where
  "performInitialMountWithErrorHandling mount_child fns this renderedComponent renderedElement
       context w =
     (case transaction_checkpoint w of
        (checkpoint1, w0) \<Rightarrow>
          (case performInitialMount mount_child fns this renderedComponent renderedElement
                  context w0 of
             None \<Rightarrow> None
           | Some (None, this1, child1, w1) \<Rightarrow> Some (None, this1, child1, w1)
           | Some (Some e, this1, child1, w1) \<Rightarrow>
               (case handleError fns checkpoint1 this1 e w1 of
                  (Some e2, this2, w2) \<Rightarrow> Some (Some e2, this2, child1, w2)
                | (None, this2, w2) \<Rightarrow>
                    (case transaction_checkpoint w2 of
                       (checkpoint2, w3) \<Rightarrow>
                         (case child1 of
                            None \<Rightarrow> Some (Some TypeError, this2, None, w3)
                          | Some child \<Rightarrow>
                              (case unmountComponent True child w3 of
                                 (Some e3, child2, w4) \<Rightarrow> Some (Some e3, this2, Some child2, w4)
                               | (None, child2, w4) \<Rightarrow>
                                   performInitialMount mount_child fns this2 (Some child2)
                                     renderedElement context
                                     (transaction_rollback checkpoint2 w4)))))))"

text \<open>
  The construction of the public instance in \<^verbatim>\<open>mountComponent\<close>: \<^verbatim>\<open>new Component(...)\<close>
  for a class, \<^verbatim>\<open>Component(...)\<close> otherwise; a result without a \<^verbatim>\<open>render\<close> method is the
  rendered element of a functional component, whose instance is a \<^verbatim>\<open>StatelessComponent\<close>
  that calls the function again on render. The result is the instance with the props and the
  context set and an undefined state normalised to \<^verbatim>\<open>null\<close>, the rendered element
  (\<^verbatim>\<open>undefined\<close> for the other kinds) and the composite type.
\<close>

definition StatelessComponent :: "(jsval \<Rightarrow> jsval \<Rightarrow> error + rendered) \<Rightarrow> hooks" where
  "StatelessComponent Component =
     \<lparr>constructor = (\<lambda>_ _. Inr Undefined), componentWillMount = None,
      render = (\<lambda>props state context. Component props context),
      unstable_handleError = None, componentDidMount = None, componentWillReceiveProps = None,
      shouldComponentUpdate = None, componentWillUpdate = None, componentDidUpdate = None,
      componentWillUnmount = None\<rparr>"

definition new_instance :: "hooks \<Rightarrow> jsval \<Rightarrow> jsval \<Rightarrow> jsval \<Rightarrow> pubinst" where
  "new_instance methods publicProps publicContext initialState =
     \<lparr>inst_methods = methods, inst_props = publicProps, inst_context = publicContext,
      inst_state = (if initialState = Undefined then Null else initialState),
      inst_calledComponentWillUnmount = False\<rparr>"

definition constructComponent ::
  "component \<Rightarrow> jsval \<Rightarrow> jsval \<Rightarrow> error + pubinst \<times> rendered \<times> CompositeTypes" where
  "constructComponent Component publicProps publicContext =
     (case Component of
        ClassComponent pure methods \<Rightarrow>
          (case constructor methods publicProps publicContext of
             Inl e \<Rightarrow> Inl e
           | Inr initialState \<Rightarrow>
               Inr (new_instance methods publicProps publicContext initialState, RUndefined,
                    if pure then PureClass else ImpureClass))
      | FactoryComponent methods \<Rightarrow>
          (case constructor methods publicProps publicContext of
             Inl e \<Rightarrow> Inl e
           | Inr initialState \<Rightarrow>
               Inr (new_instance methods publicProps publicContext initialState, RUndefined,
                    ImpureClass))
      | FunctionalComponent f \<Rightarrow>
          (case f publicProps publicContext of
             Inl e \<Rightarrow> Inl e
           | Inr renderedElement \<Rightarrow>
               Inr (new_instance (StatelessComponent f) publicProps publicContext Undefined,
                    renderedElement, StatelessFunctional)))"

fun element_component :: "registry \<Rightarrow> element \<Rightarrow> component option" where
  "element_component R (HostElement _ _ _) = None"
| "element_component R (CompositeElement _ name _) = R name"

text \<open>
  \<^verbatim>\<open>mountComponent\<close> of a composite instance. Its first effect is the stamp
  \<^verbatim>\<open>this._mountOrder = nextMountID++\<close>.
\<close>

definition mountComponent ::
  "mounter \<Rightarrow> registry \<Rightarrow> updaters \<Rightarrow> composite \<Rightarrow> instance_tree option \<Rightarrow> jsval \<Rightarrow> world
    \<Rightarrow> (error option \<times> composite \<times> instance_tree option \<times> world) option" where
  "mountComponent mount_child R fns this renderedComponent context w =
     (let this1 = this\<lparr>context' := context, mountOrder := nextMountID w\<rparr>;
          w1 = record_event (Stamped (nextMountID w)) (w\<lparr>nextMountID := Suc (nextMountID w)\<rparr>);
          publicProps = element_props (currentElement this1);
          publicContext = processContext context
      in case element_component R (currentElement this1) of
           None \<Rightarrow> Some (Some TypeError, this1, renderedComponent, w1)
         | Some Component \<Rightarrow>
             (case constructComponent Component publicProps publicContext of
                Inl e \<Rightarrow> Some (Some e, this1, renderedComponent, w1)
              | Inr (inst, renderedElement, kind) \<Rightarrow>
                  (let this2 = this1\<lparr>compositeType := Some kind, instance' := Some inst,
                                    pendingStateQueue := None, pendingReplaceState := False,
                                    pendingForceUpdate := False\<rparr>
                   in case (if unstable_handleError (inst_methods inst) \<noteq> None
                            then performInitialMountWithErrorHandling mount_child fns this2
                                   renderedComponent renderedElement context w1
                            else performInitialMount mount_child fns this2 renderedComponent
                                   renderedElement context w1) of
                        None \<Rightarrow> None
                      | Some (Some e, this3, child, w3) \<Rightarrow> Some (Some e, this3, child, w3)
                      | Some (None, this3, child, w3) \<Rightarrow>
                          Some (None, this3, child,
                                if componentDidMount (inst_methods inst) \<noteq> None
                                then record_event (DidMountEnqueued (mountOrder this3))
                                       (w3\<lparr>mountReady := mountReady w3 @ [mountOrder this3]\<rparr>)
                                else w3))))"

text \<open>
  Modelled from the spec: the mount of the host reconciler, which is not in the sources. A
  host instance creates the instances of all its child elements and mounts them in order.
\<close>

fun mountChildren ::
  "mounter \<Rightarrow> instance_tree list \<Rightarrow> jsval \<Rightarrow> world
    \<Rightarrow> (error option \<times> instance_tree list \<times> world) option" where
  "mountChildren mount_child [] context w = Some (None, [], w)"
| "mountChildren mount_child (child # children) context w =
     (case mount_child child context w of
        None \<Rightarrow> None
      | Some (Some e, child1, w1) \<Rightarrow> Some (Some e, child1 # children, w1)
      | Some (None, child1, w1) \<Rightarrow>
          (case mountChildren mount_child children context w1 of
             None \<Rightarrow> None
           | Some (thrown, children1, w2) \<Rightarrow> Some (thrown, child1 # children1, w2)))"

text \<open>
  Modelled from the spec: \<^verbatim>\<open>ReactReconciler.mountComponent\<close>, the polymorphic mount. A render
  may return any element, so the descent need not end: the first argument bounds its depth,
  and the result is \<open>None\<close> when the bound is reached.
\<close>

fun ReactReconciler_mountComponent ::
  "nat \<Rightarrow> registry \<Rightarrow> updaters \<Rightarrow> instance_tree \<Rightarrow> jsval \<Rightarrow> world
    \<Rightarrow> (error option \<times> instance_tree \<times> world) option" where
  "ReactReconciler_mountComponent 0 R fns t context w = None"
| "ReactReconciler_mountComponent (Suc n) R fns EmptyInstance context w =
     Some (None, EmptyInstance, w)"
| "ReactReconciler_mountComponent (Suc n) R fns (HostInstance element children) context w =
     (case mountChildren (\<lambda>t c v. ReactReconciler_mountComponent n R fns t c v)
             (map instantiateChild (element_children element)) context w of
        None \<Rightarrow> None
      | Some (thrown, children1, w1) \<Rightarrow> Some (thrown, HostInstance element children1, w1))"
| "ReactReconciler_mountComponent (Suc n) R fns (CompositeInstance this renderedComponent)
       context w =
     (case mountComponent (\<lambda>t c v. ReactReconciler_mountComponent n R fns t c v) R fns this
             renderedComponent context w of
        None \<Rightarrow> None
      | Some (thrown, this1, child, w1) \<Rightarrow> Some (thrown, CompositeInstance this1 child, w1))"

definition initial_world :: world where
  "initial_world =
     \<lparr>nextMountID = 1, nextObject = 1000, mountReady = [], caughtError = None, trace = []\<rparr>"


section \<open>Mount order in a tree\<close>

text \<open>The mount orders of the composite instances of a tree, an instance before its subtree.\<close>

fun mount_orders :: "instance_tree \<Rightarrow> nat list"
  and mount_orders_list :: "instance_tree list \<Rightarrow> nat list" where
  "mount_orders EmptyInstance = []"
| "mount_orders (HostInstance element children) = mount_orders_list children"
| "mount_orders (CompositeInstance this None) = [mountOrder this]"
| "mount_orders (CompositeInstance this (Some child)) = mountOrder this # mount_orders child"
| "mount_orders_list [] = []"
| "mount_orders_list (child # children) = mount_orders child @ mount_orders_list children"

text \<open>Every composite instance of the tree has a smaller mount order than every composite
  instance below it.\<close>

fun ancestors_first :: "instance_tree \<Rightarrow> bool"
  and ancestors_first_list :: "instance_tree list \<Rightarrow> bool" where
  "ancestors_first EmptyInstance = True"
| "ancestors_first (HostInstance element children) = ancestors_first_list children"
| "ancestors_first (CompositeInstance this None) = True"
| "ancestors_first (CompositeInstance this (Some child)) =
     (list_all (\<lambda>m. mountOrder this < m) (mount_orders child) \<and> ancestors_first child)"
| "ancestors_first_list [] = True"
| "ancestors_first_list (child # children) =
     (ancestors_first child \<and> ancestors_first_list children)"

text \<open>The mount orders of the tree lie in the interval from \<open>lo\<close> up to, not including, \<open>hi\<close>.\<close>

definition stamped_within :: "nat \<Rightarrow> nat \<Rightarrow> nat list \<Rightarrow> bool" where
  "stamped_within lo hi ms = list_all (\<lambda>m. lo \<le> m \<and> m < hi) ms"

text \<open>
  How an operation may change the world: the counter does not go down, the record of events
  grows at the end, and every stamp it adds is a value the counter has passed.
\<close>

fun stamps :: "event list \<Rightarrow> nat list" where
  "stamps [] = []"
| "stamps (Stamped m # evs) = m # stamps evs"
| "stamps (ev # evs) = stamps evs"

definition extends :: "world \<Rightarrow> world \<Rightarrow> bool" where
  "extends w w1 =
     (nextMountID w \<le> nextMountID w1 \<and>
      (\<exists>ext. trace w1 = trace w @ ext \<and>
             stamped_within (nextMountID w) (nextMountID w1) (stamps ext)))"

text \<open>What the mount of a child is taken to guarantee while its parent is examined.\<close>

definition good_mounter :: "mounter \<Rightarrow> bool" where
  "good_mounter mount_child =
     (\<forall>t c w r t1 w1. mount_child t c w = Some (r, t1, w1) \<longrightarrow>
        extends w w1 \<and>
        (r = None \<longrightarrow>
           ancestors_first t1 \<and> stamped_within (nextMountID w) (nextMountID w1) (mount_orders t1)))"


section \<open>Sequences of unmount calls\<close>

text \<open>A caller that unmounts an instance again and again, catching whatever is thrown.\<close>

fun unmount_all :: "bool list \<Rightarrow> instance_tree \<Rightarrow> world \<Rightarrow> instance_tree \<times> world" where
  "unmount_all [] t w = (t, w)"
| "unmount_all (safely # rest) t w =
     (case unmountComponent safely t w of (thrown, t1, w1) \<Rightarrow> unmount_all rest t1 w1)"

text \<open>The instances whose \<^verbatim>\<open>componentWillUnmount\<close> was called, as the events record them.\<close>

fun will_unmounts :: "event list \<Rightarrow> nat multiset" where
  "will_unmounts [] = {#}"
| "will_unmounts (WillUnmount k # evs) = add_mset k (will_unmounts evs)"
| "will_unmounts (ev # evs) = will_unmounts evs"

text \<open>The composite instances of a tree that have the hook and on which it was not called.\<close>

definition awaits_unmount :: "composite \<Rightarrow> bool" where
  "awaits_unmount this =
     (case instance' this of
        None \<Rightarrow> False
      | Some inst \<Rightarrow>
          componentWillUnmount (inst_methods inst) \<noteq> None \<and>
          \<not> inst_calledComponentWillUnmount inst)"

fun pending_unmounts :: "instance_tree \<Rightarrow> nat multiset"
  and pending_unmounts_list :: "instance_tree list \<Rightarrow> nat multiset" where
  "pending_unmounts EmptyInstance = {#}"
| "pending_unmounts (HostInstance element children) = pending_unmounts_list children"
| "pending_unmounts (CompositeInstance this None) =
     (if awaits_unmount this then {#mountOrder this#} else {#})"
| "pending_unmounts (CompositeInstance this (Some child)) =
     (if awaits_unmount this then {#mountOrder this#} else {#}) + pending_unmounts child"
| "pending_unmounts_list [] = {#}"
| "pending_unmounts_list (child # children) =
     pending_unmounts child + pending_unmounts_list children"

text \<open>Every composite instance that has a rendered child has its public instance: the two
  fields are set by one mount and cleared by one unmount.\<close>

fun instances_present :: "instance_tree \<Rightarrow> bool"
  and instances_present_list :: "instance_tree list \<Rightarrow> bool" where
  "instances_present EmptyInstance = True"
| "instances_present (HostInstance element children) = instances_present_list children"
| "instances_present (CompositeInstance this None) = True"
| "instances_present (CompositeInstance this (Some child)) =
     (instance' this \<noteq> None \<and> instances_present child)"
| "instances_present_list [] = True"
| "instances_present_list (child # children) =
     (instances_present child \<and> instances_present_list children)"


section \<open>Order of events\<close>

text \<open>In the record \<open>evs\<close>, the event \<open>b\<close> occurs after the first occurrence of \<open>a\<close>.\<close>

definition happens_before :: "event \<Rightarrow> event \<Rightarrow> event list \<Rightarrow> bool" where
  "happens_before a b evs = (b \<in> set (dropWhile (\<lambda>ev. ev \<noteq> a) evs) \<and> a \<noteq> b)"


section \<open>ReactUpdates: the batched-update scheduler\<close>

text \<open>
  The scheduler sees a component through three fields: \<^verbatim>\<open>_mountOrder\<close>,
  \<^verbatim>\<open>_updateBatchNumber\<close> and \<^verbatim>\<open>_pendingCallbacks\<close>. What the user code does while a component
  is reconciled, or while a callback runs, reaches the scheduler as calls of \<^verbatim>\<open>asap\<close> and
  \<^verbatim>\<open>enqueueUpdate\<close>. A run of user code that returns makes finitely many such calls, each
  with a callback or a component whose own run is again of this kind; the model takes that
  record of calls as the description of the user code. A task is a callback: a name, the
  calls it makes, in order, and the error it throws after them, if it throws. A component
  carries the calls its reconciliation makes.
\<close>

datatype task = Task nat "request list" "error option"
and request = Asap task nat | EnqueueUpdate dirty_component
and dirty_component = Component nat "nat option" "task list option" "request list"

fun task_body :: "task \<Rightarrow> request list" where
  "task_body (Task name body thrown) = body"

fun task_thrown :: "task \<Rightarrow> error option" where
  "task_thrown (Task name body thrown) = thrown"

fun component_mountOrder :: "dirty_component \<Rightarrow> nat" where
  "component_mountOrder (Component m b cbs body) = m"

fun component_updateBatchNumber :: "dirty_component \<Rightarrow> nat option" where
  "component_updateBatchNumber (Component m b cbs body) = b"

fun component_pendingCallbacks :: "dirty_component \<Rightarrow> task list option" where
  "component_pendingCallbacks (Component m b cbs body) = cbs"

fun component_body :: "dirty_component \<Rightarrow> request list" where
  "component_body (Component m b cbs body) = body"

datatype scheduler_event =
    Reconciled nat
  | AsapCalled task
  | AsapInvoked task
  | CallbackInvoked task

text \<open>
  The module state of ReactUpdates, and the record of what happened. A callback queue is
  used here through \<^verbatim>\<open>enqueue\<close>, \<^verbatim>\<open>reset\<close> and \<^verbatim>\<open>notifyAll\<close> only, and the queue that is
  drained is never the one a callback can enqueue on (it was swapped out, or belongs to the
  flush transaction): it is the list of its pairs, and \<^verbatim>\<open>notifyAll\<close> calls them in order.
\<close>

record scheduler =
  dirtyComponents :: "dirty_component list"
  global_updateBatchNumber :: nat
  asapCallbackQueue :: "(task \<times> nat) list"
  asapEnqueued :: bool
  events :: "scheduler_event list"

text \<open>
  \<^verbatim>\<open>enqueueUpdate(component)\<close>. The batching strategy is injected and not in the sources; by
  its contract in the spec it holds \<^verbatim>\<open>isBatchingUpdates\<close> around a batch and flushes at the
  close of the outermost one, so a call made during a flush finds the flag set and takes the
  branch after the test: the push and the stamp of the batch number.
\<close>

definition enqueueUpdate :: "dirty_component \<Rightarrow> scheduler \<Rightarrow> scheduler" where
  "enqueueUpdate component s =
     s\<lparr>dirtyComponents := dirtyComponents s @
          [case component of
             Component m None cbs body \<Rightarrow> Component m (Some (global_updateBatchNumber s + 1)) cbs body
           | Component m (Some b) cbs body \<Rightarrow> Component m (Some b) cbs body]\<rparr>"

definition asap :: "task \<Rightarrow> nat \<Rightarrow> scheduler \<Rightarrow> scheduler" where
  "asap callback context s =
     s\<lparr>asapCallbackQueue := asapCallbackQueue s @ [(callback, context)],
       asapEnqueued := True,
       events := events s @ [AsapCalled callback]\<rparr>"

text \<open>The calls a piece of user code makes, in order.\<close>

fun run_requests :: "request list \<Rightarrow> scheduler \<Rightarrow> scheduler" where
  "run_requests [] s = s"
| "run_requests (Asap callback context # rest) s = run_requests rest (asap callback context s)"
| "run_requests (EnqueueUpdate component # rest) s = run_requests rest (enqueueUpdate component s)"

text \<open>
  \<^verbatim>\<open>queue.notifyAll()\<close> on a queue of the given pairs; \<open>ev\<close> says how an invocation is
  recorded. When a callback throws, the loop is left with the error: the callbacks behind it
  are not called, and they stay in the local arrays only.
\<close>

fun notifyAll_tasks ::
  "(task \<Rightarrow> scheduler_event) \<Rightarrow> (task \<times> nat) list \<Rightarrow> scheduler
    \<Rightarrow> error option \<times> scheduler" where
  "notifyAll_tasks ev [] s = (None, s)"
| "notifyAll_tasks ev ((callback, context) # rest) s =
     (case task_thrown callback of
        Some e \<Rightarrow>
          (Some e, run_requests (task_body callback) (s\<lparr>events := events s @ [ev callback]\<rparr>))
      | None \<Rightarrow>
          notifyAll_tasks ev rest
            (run_requests (task_body callback) (s\<lparr>events := events s @ [ev callback]\<rparr>)))"

text \<open>
  Modelled from the spec: \<^verbatim>\<open>ReactReconciler.performUpdateIfNecessary\<close> is not in the sources;
  by the spec it is the reconcile-if-necessary operation of the instance. Here it records the
  reconciliation and makes the calls the component's user code makes.
\<close>

definition performUpdateIfNecessary :: "dirty_component \<Rightarrow> scheduler \<Rightarrow> scheduler" where
  "performUpdateIfNecessary component s =
     run_requests (component_body component)
       (s\<lparr>events := events s @ [Reconciled (component_mountOrder component)]\<rparr>)"

text \<open>
  The loop of \<^verbatim>\<open>runBatchedUpdates\<close>, from index \<open>i\<close>: \<^verbatim>\<open>dirtyComponents[i]\<close> is read from the
  current array (a TypeError on its field when there is no such element), its callbacks are
  taken and cleared, it is reconciled, and the callbacks are enqueued on the queue of the
  transaction with the component as context.
\<close>

function runBatchedUpdates_loop ::
  "nat \<Rightarrow> nat \<Rightarrow> (task \<times> nat) list \<Rightarrow> scheduler
    \<Rightarrow> error option \<times> (task \<times> nat) list \<times> scheduler" where
  "runBatchedUpdates_loop len i callbackQueue s =
     (if i < len then
        (if i < length (dirtyComponents s) then
           (case dirtyComponents s ! i of
              Component m b callbacks body \<Rightarrow>
                runBatchedUpdates_loop len (Suc i)
                  (callbackQueue @
                     (case callbacks of
                        None \<Rightarrow> []
                      | Some cbs \<Rightarrow> map (\<lambda>callback. (callback, m)) cbs))
                  (performUpdateIfNecessary (Component m b None body)
                     (s\<lparr>dirtyComponents := (dirtyComponents s)[i := Component m b None body]\<rparr>)))
         else (Some TypeError, callbackQueue, s))
      else (None, callbackQueue, s))"
  by pat_completeness auto
termination
  by (relation "measure (\<lambda>(len, i, callbackQueue, s). len - i)") auto

text \<open>
  \<^verbatim>\<open>runBatchedUpdates(transaction)\<close>, with \<^verbatim>\<open>transaction.dirtyComponentsLength\<close> and
  \<^verbatim>\<open>transaction.callbackQueue\<close>. \<^verbatim>\<open>Array.prototype.sort\<close> with \<^verbatim>\<open>mountOrderComparator\<close> sorts
  by ascending mount order; the order it gives to components of equal mount order is not
  relied on below.
\<close>

definition runBatchedUpdates ::
  "nat \<Rightarrow> (task \<times> nat) list \<Rightarrow> scheduler \<Rightarrow> error option \<times> (task \<times> nat) list \<times> scheduler" where
  "runBatchedUpdates len callbackQueue s =
     runBatchedUpdates_loop len 0 callbackQueue
       (s\<lparr>dirtyComponents := sort_key component_mountOrder (dirtyComponents s),
          global_updateBatchNumber := global_updateBatchNumber s + 1\<rparr>)"

type_synonym flusher = "scheduler \<Rightarrow> (error option \<times> scheduler) option"

text \<open>
  \<^verbatim>\<open>NESTED_UPDATES.close\<close>: when components were pushed during the pass, the processed window
  is spliced off and \<^verbatim>\<open>flushBatchedUpdates\<close> is called; otherwise the array is emptied.
\<close>

definition NESTED_UPDATES_close :: "flusher \<Rightarrow> nat \<Rightarrow> scheduler \<Rightarrow> (error option \<times> scheduler) option" where
  "NESTED_UPDATES_close flush dirtyComponentsLength s =
     (if dirtyComponentsLength \<noteq> length (dirtyComponents s)
      then flush (s\<lparr>dirtyComponents := drop dirtyComponentsLength (dirtyComponents s)\<rparr>)
      else Some (None, s\<lparr>dirtyComponents := []\<rparr>))"

text \<open>
  \<^verbatim>\<open>transaction.perform(runBatchedUpdates, null, transaction)\<close> of a flush transaction.
  Modelled from the spec: \<^verbatim>\<open>Transaction.perform\<close> is not in the sources; by the spec every
  \<^verbatim>\<open>initialize\<close> runs in order, then the method, then every \<^verbatim>\<open>close\<close> in the same order even
  if the method threw, and the error is propagated after them; a \<^verbatim>\<open>close\<close> does not suppress
  an error, so the first error thrown, by the method or by a \<^verbatim>\<open>close\<close>, is the one
  propagated. The wrappers are
  \<^verbatim>\<open>NESTED_UPDATES\<close> (its \<^verbatim>\<open>initialize\<close> notes the length of \<^verbatim>\<open>dirtyComponents\<close>) and
  \<^verbatim>\<open>UPDATE_QUEUEING\<close> (its \<^verbatim>\<open>initialize\<close> resets the callback queue, its \<^verbatim>\<open>close\<close> notifies it).
  The wrappers of the inner reconcile transaction are host concerns and are left out.
\<close>

definition perform :: "flusher \<Rightarrow> scheduler \<Rightarrow> (error option \<times> scheduler) option" where
  "perform flush s =
     (case runBatchedUpdates (length (dirtyComponents s)) [] s of
        (thrown, callbackQueue, s1) \<Rightarrow>
          (case NESTED_UPDATES_close flush (length (dirtyComponents s)) s1 of
             None \<Rightarrow> None
           | Some (thrown2, s2) \<Rightarrow>
               (case notifyAll_tasks CallbackInvoked callbackQueue s2 of
                  (thrown3, s3) \<Rightarrow>
                    Some (case thrown of
                            Some e \<Rightarrow> Some e
                          | None \<Rightarrow> (case thrown2 of Some e \<Rightarrow> Some e | None \<Rightarrow> thrown3),
                          s3))))"

text \<open>The second half of the loop body of \<^verbatim>\<open>flushBatchedUpdates\<close>: the flag is cleared and a
  new queue swapped in, then the captured queue is notified.\<close>

definition drain_asap :: "scheduler \<Rightarrow> error option \<times> scheduler" where
  "drain_asap s =
     notifyAll_tasks AsapInvoked (asapCallbackQueue s)
       (s\<lparr>asapEnqueued := False, asapCallbackQueue := []\<rparr>)"

text \<open>
  \<^verbatim>\<open>flushBatchedUpdates\<close>. The loop, and the call from \<^verbatim>\<open>NESTED_UPDATES.close\<close>, need not end
  for arbitrary user code: the first argument bounds the number of nested turns, and the
  result is \<open>None\<close> when the bound is reached. An error leaves the loop.
\<close>

fun flushBatchedUpdates :: "nat \<Rightarrow> scheduler \<Rightarrow> (error option \<times> scheduler) option" where
  "flushBatchedUpdates 0 s = None"
| "flushBatchedUpdates (Suc n) s =
     (if dirtyComponents s \<noteq> [] \<or> asapEnqueued s then
        (case (if dirtyComponents s \<noteq> [] then perform (\<lambda>v. flushBatchedUpdates n v) s
               else Some (None, s)) of
           None \<Rightarrow> None
         | Some (Some e, s1) \<Rightarrow> Some (Some e, s1)
         | Some (None, s1) \<Rightarrow>
             (if asapEnqueued s1 then
                (case drain_asap s1 of
                   (Some e, s2) \<Rightarrow> Some (Some e, s2)
                 | (None, s2) \<Rightarrow> flushBatchedUpdates n s2)
              else flushBatchedUpdates n s1))
      else Some (None, s))"

text \<open>The mount orders of the reconciled components, and the callbacks passed to \<^verbatim>\<open>asap\<close> and
  invoked from its queue, as the events record them.\<close>

fun reconciled :: "scheduler_event list \<Rightarrow> nat list" where
  "reconciled [] = []"
| "reconciled (Reconciled m # evs) = m # reconciled evs"
| "reconciled (ev # evs) = reconciled evs"

fun asap_called :: "scheduler_event list \<Rightarrow> task multiset" where
  "asap_called [] = {#}"
| "asap_called (AsapCalled t # evs) = add_mset t (asap_called evs)"
| "asap_called (ev # evs) = asap_called evs"

fun asap_invoked :: "scheduler_event list \<Rightarrow> task multiset" where
  "asap_invoked [] = {#}"
| "asap_invoked (AsapInvoked t # evs) = add_mset t (asap_invoked evs)"
| "asap_invoked (ev # evs) = asap_invoked evs"

text \<open>The work a state still holds: the size of the user code waiting in its queues.\<close>

fun task_weight :: "task \<Rightarrow> nat"
  and request_weight :: "request \<Rightarrow> nat"
  and component_weight :: "dirty_component \<Rightarrow> nat" where
  "task_weight (Task name body thrown) = Suc (sum_list (map request_weight body))"
| "request_weight (Asap callback context) = Suc (task_weight callback)"
| "request_weight (EnqueueUpdate component) = Suc (component_weight component)"
| "component_weight (Component m b callbacks body) =
     Suc ((case callbacks of None \<Rightarrow> 0 | Some cbs \<Rightarrow> sum_list (map task_weight cbs)) +
          sum_list (map request_weight body))"

definition asap_work :: "scheduler \<Rightarrow> nat" where
  "asap_work s =
     sum_list (map (\<lambda>(callback, context). task_weight callback) (asapCallbackQueue s)) +
     (if asapEnqueued s then 1 else 0)"

definition pending_work :: "scheduler \<Rightarrow> nat" where
  "pending_work s = sum_list (map component_weight (dirtyComponents s)) + asap_work s"

text \<open>
  \<open>answers s extra s'\<close>: from \<open>s\<close> to \<open>s'\<close> the record of events only grew, and the callbacks
  invoked from the \<^verbatim>\<open>asap\<close> queue since \<open>s\<close>, with those still queued in \<open>s'\<close>, are the
  ones queued in \<open>s\<close>, those of \<open>extra\<close> (a queue that was swapped out) and those passed to
  \<^verbatim>\<open>asap\<close> since \<open>s\<close>, each as many times.
\<close>

definition answers :: "scheduler \<Rightarrow> task multiset \<Rightarrow> scheduler \<Rightarrow> bool" where
  "answers s extra s' =
     (\<exists>new. events s' = events s @ new \<and>
        asap_invoked new + mset (map fst (asapCallbackQueue s')) =
          mset (map fst (asapCallbackQueue s)) + extra + asap_called new)"

text \<open>The flag \<^verbatim>\<open>asapEnqueued\<close> is set whenever the queue holds a callback.\<close>

definition flagged :: "scheduler \<Rightarrow> bool" where
  "flagged s = (asapEnqueued s \<or> asapCallbackQueue s = [])"

text \<open>The pairs (ancestor, descendant) of mount orders of the composite instances of a tree.\<close>

fun lineage :: "instance_tree \<Rightarrow> (nat \<times> nat) list"
  and lineage_list :: "instance_tree list \<Rightarrow> (nat \<times> nat) list" where
  "lineage EmptyInstance = []"
| "lineage (HostInstance element children) = lineage_list children"
| "lineage (CompositeInstance this None) = []"
| "lineage (CompositeInstance this (Some child)) =
     map (\<lambda>m. (mountOrder this, m)) (mount_orders child) @ lineage child"
| "lineage_list [] = []"
| "lineage_list (child # children) = lineage child @ lineage_list children"

text \<open>
  \<open>pass_first s s'\<close>: what happened from \<open>s\<close> to \<open>s'\<close> begins with the reconciliation of the
  components that were dirty in \<open>s\<close>, in ascending mount order, and no callback of the \<^verbatim>\<open>asap\<close>
  queue is invoked before that pass is over.
\<close>

definition pass_first :: "scheduler \<Rightarrow> scheduler \<Rightarrow> bool" where
  "pass_first s s' =
     (\<exists>pass rest. events s' = events s @ pass @ rest \<and> asap_invoked pass = {#} \<and>
        reconciled pass =
          map component_mountOrder (sort_key component_mountOrder (dirtyComponents s)))"

text \<open>User code in which no callback throws, and the states that hold such code only.\<close>

fun task_returns :: "task \<Rightarrow> bool"
  and request_returns :: "request \<Rightarrow> bool"
  and component_returns :: "dirty_component \<Rightarrow> bool" where
  "task_returns (Task name body thrown) = (thrown = None \<and> list_all request_returns body)"
| "request_returns (Asap callback context) = task_returns callback"
| "request_returns (EnqueueUpdate component) = component_returns component"
| "component_returns (Component m b callbacks body) =
     ((case callbacks of None \<Rightarrow> True | Some cbs \<Rightarrow> list_all task_returns cbs) \<and>
      list_all request_returns body)"

definition all_return :: "scheduler \<Rightarrow> bool" where
  "all_return s =
     (list_all component_returns (dirtyComponents s) \<and>
      list_all (\<lambda>(callback, context). task_returns callback) (asapCallbackQueue s))"

text \<open>
  \<open>settles r s s'\<close>: from \<open>s\<close> to \<open>s'\<close>, with the outcome \<open>r\<close>, the record of events only grew,
  and the callbacks queued in \<open>s\<close> and those passed to \<^verbatim>\<open>asap\<close> since \<open>s\<close> are, each as many
  times, those invoked from the \<^verbatim>\<open>asap\<close> queue since \<open>s\<close>, those still queued in \<open>s'\<close>, and
  those that were dropped (\<open>lost\<close>); none is dropped unless an error was thrown.
\<close>

definition settles :: "error option \<Rightarrow> scheduler \<Rightarrow> scheduler \<Rightarrow> bool" where
  "settles r s s' =
     (\<exists>new lost. events s' = events s @ new \<and>
        asap_invoked new + mset (map fst (asapCallbackQueue s')) + lost =
          mset (map fst (asapCallbackQueue s)) + asap_called new \<and>
        (r = None \<longrightarrow> lost = {#}))"

text \<open>What a run of \<^verbatim>\<open>flushBatchedUpdates\<close> that returns is shown to guarantee.\<close>

definition sound :: "flusher \<Rightarrow> bool" where
  "sound flush =
     (\<forall>v r s'. flagged v \<longrightarrow> flush v = Some (r, s') \<longrightarrow>
        flagged s' \<and> settles r v s' \<and>
        (r = None \<longrightarrow> dirtyComponents s' = [] \<and> \<not> asapEnqueued s') \<and>
        (all_return v \<longrightarrow> r = None \<and> all_return s'))"

text \<open>Every composite instance of the tree is mounted: it has its public instance and its
  rendered child.\<close>

fun fully_mounted :: "instance_tree \<Rightarrow> bool"
  and fully_mounted_list :: "instance_tree list \<Rightarrow> bool" where
  "fully_mounted EmptyInstance = True"
| "fully_mounted (HostInstance element children) = fully_mounted_list children"
| "fully_mounted (CompositeInstance this None) = False"
| "fully_mounted (CompositeInstance this (Some child)) =
     (instance' this \<noteq> None \<and> fully_mounted child)"
| "fully_mounted_list [] = True"
| "fully_mounted_list (child # children) =
     (fully_mounted child \<and> fully_mounted_list children)"

section \<open>Example programs\<close>

text \<open>Components and instances on which the theorems below are run.\<close>

definition no_hooks :: hooks where
  "no_hooks =
     \<lparr>constructor = (\<lambda>_ _. Inr Undefined), componentWillMount = None,
      render = (\<lambda>_ _ _. Inr REmpty), unstable_handleError = None, componentDidMount = None,
      componentWillReceiveProps = None, shouldComponentUpdate = None,
      componentWillUpdate = None, componentDidUpdate = None, componentWillUnmount = None\<rparr>"

definition counter_inst :: pubinst where
  "counter_inst =
     \<lparr>inst_methods = no_hooks, inst_props = Obj 1 [], inst_context = Obj 2 [],
      inst_state = Obj 3 [(''n'', Num 0)], inst_calledComponentWillUnmount = False\<rparr>"

definition counter :: composite where
  "counter = (construct (CompositeElement 0 ''Counter'' (Obj 1 [])))\<lparr>instance' := Some counter_inst\<rparr>"

text \<open>An updater that adds one to \<^verbatim>\<open>n\<close> of the accumulated state, whoever \<^verbatim>\<open>this\<close> is.\<close>

definition increment :: updaters where
  "increment f this nextState props context =
     (case map_of (own_props nextState) ''n'' of
        Some (Num n) \<Rightarrow> Obj 100 [(''n'', Num (n + 1))]
      | _ \<Rightarrow> Null)"

text \<open>The counter with a pending \<^verbatim>\<open>replaceState\<close> and the given queue.\<close>

definition replacing :: "jsval list \<Rightarrow> composite" where
  "replacing q = counter\<lparr>pendingStateQueue := Some q, pendingReplaceState := True\<rparr>"

definition pure_counter :: "jsval list \<Rightarrow> composite" where
  "pure_counter q = counter\<lparr>compositeType := Some PureClass, pendingStateQueue := Some q\<rparr>"

definition counter_element :: element where
  "counter_element = CompositeElement 0 ''Counter'' (Obj 1 [])"

text \<open>A queue holding one callback that, when called, enqueues another.\<close>

definition child_callback :: callback where
  "child_callback = Callback 2 []"

definition parent_callback :: callback where
  "parent_callback = Callback 1 [Enqueue child_callback (Str ''child'')]"

definition one_queued :: queue_world where
  "one_queued = enqueue parent_callback (Str ''parent'') (new_queue (Num 7))"


text \<open>
  A small application. \<open>Outer\<close> renders \<open>Inner\<close>, which renders a host element; both have a
  \<^verbatim>\<open>componentDidMount\<close>. \<open>Noisy\<close> renders \<open>Quiet\<close>; both have a \<^verbatim>\<open>componentWillUnmount\<close>,
  and that of \<open>Noisy\<close> throws. The three boundaries declare \<^verbatim>\<open>unstable_handleError\<close>, which
  records the error in the state; with the error recorded they render a host element. Without
  it, \<open>Boundary\<close> renders \<open>Bomb\<close>, whose render throws; the render of \<open>FragileBoundary\<close>
  throws itself; and the \<^verbatim>\<open>componentWillMount\<close> of \<open>HastyBoundary\<close> throws.
\<close>

definition no_effect :: effect where
  "no_effect = \<lparr>queued = [], raised = None\<rparr>"

definition boom :: error where
  "boom = Thrown (Str ''boom'')"

definition has_error :: "jsval \<Rightarrow> bool" where
  "has_error state = (map_of (own_props state) ''error'' = Some (Bool True))"

definition record_error :: "(error \<Rightarrow> effect) hook_fn" where
  "record_error props state context e = \<lparr>queued = [Obj 50 [(''error'', Bool True)]], raised = None\<rparr>"

definition Inner :: component where
  "Inner = ClassComponent False (no_hooks
     \<lparr>render := (\<lambda>props state context. Inr (RElement (HostElement 20 ''div'' []))),
      componentDidMount := Some (\<lambda>props state context. no_effect)\<rparr>)"

definition Outer :: component where
  "Outer = ClassComponent False (no_hooks
     \<lparr>render := (\<lambda>props state context. Inr (RElement (CompositeElement 21 ''Inner'' (Obj 22 [])))),
      componentDidMount := Some (\<lambda>props state context. no_effect)\<rparr>)"

definition Quiet :: component where
  "Quiet = ClassComponent False (no_hooks
     \<lparr>render := (\<lambda>props state context. Inr (RElement (HostElement 30 ''div'' []))),
      componentWillUnmount := Some (\<lambda>props state context. no_effect)\<rparr>)"

definition Noisy :: component where
  "Noisy = ClassComponent False (no_hooks
     \<lparr>render := (\<lambda>props state context. Inr (RElement (CompositeElement 31 ''Quiet'' (Obj 32 [])))),
      componentWillUnmount := Some (\<lambda>props state context. \<lparr>queued = [], raised = Some boom\<rparr>)\<rparr>)"

definition Bomb :: component where
  "Bomb = ClassComponent False (no_hooks\<lparr>render := (\<lambda>props state context. Inl boom)\<rparr>)"

definition Boundary :: component where
  "Boundary = ClassComponent False (no_hooks
     \<lparr>render := (\<lambda>props state context.
         if has_error state then Inr (RElement (HostElement 10 ''span'' []))
         else Inr (RElement (CompositeElement 11 ''Bomb'' (Obj 12 [])))),
      componentDidMount := Some (\<lambda>props state context. no_effect),
      unstable_handleError := Some record_error\<rparr>)"

definition FragileBoundary :: component where
  "FragileBoundary = ClassComponent False (no_hooks
     \<lparr>render := (\<lambda>props state context.
         if has_error state then Inr (RElement (HostElement 10 ''span'' [])) else Inl boom),
      unstable_handleError := Some record_error\<rparr>)"

definition HastyBoundary :: component where
  "HastyBoundary = ClassComponent False (no_hooks
     \<lparr>componentWillMount := Some (\<lambda>props state context.
         if has_error state then no_effect else \<lparr>queued = [], raised = Some boom\<rparr>),
      render := (\<lambda>props state context. Inr (RElement (HostElement 10 ''span'' []))),
      unstable_handleError := Some record_error\<rparr>)"

definition app :: registry where
  "app = [''Inner'' \<mapsto> Inner, ''Outer'' \<mapsto> Outer, ''Quiet'' \<mapsto> Quiet, ''Noisy'' \<mapsto> Noisy,
          ''Bomb'' \<mapsto> Bomb, ''Boundary'' \<mapsto> Boundary, ''FragileBoundary'' \<mapsto> FragileBoundary,
          ''HastyBoundary'' \<mapsto> HastyBoundary]"

text \<open>Mounting a root element of the named component into the initial world.\<close>

definition mount_root :: "string \<Rightarrow> (error option \<times> instance_tree \<times> world) option" where
  "mount_root name =
     ReactReconciler_mountComponent 5 app increment
       (instantiateChild (CompositeElement 1 name (Obj 2 []))) emptyObject initial_world"

definition mounted_tree :: "string \<Rightarrow> instance_tree" where
  "mounted_tree name = fst (snd (the (mount_root name)))"

definition mounted_world :: "string \<Rightarrow> world" where
  "mounted_world name = snd (snd (the (mount_root name)))"

text \<open>An instance whose \<^verbatim>\<open>componentWillUnmount\<close> throws.\<close>

definition throwing_hook :: "effect hook_fn" where
  "throwing_hook props state context = \<lparr>queued = [], raised = Some boom\<rparr>"

definition noisy_inst :: pubinst where
  "noisy_inst = counter_inst\<lparr>inst_methods := no_hooks\<lparr>componentWillUnmount := Some throwing_hook\<rparr>\<rparr>"

definition noisy_this :: composite where
  "noisy_this = counter\<lparr>instance' := Some noisy_inst, mountOrder := 7\<rparr>"


text \<open>
  Scheduler states: the initial one; one in which the instances of \<open>Inner\<close> (mount order 2)
  and \<open>Outer\<close> (mount order 1) were marked dirty, in this order; and one with two dirty
  components and a pending \<^verbatim>\<open>asap\<close> callback, whose user code calls \<^verbatim>\<open>asap\<close> and
  \<^verbatim>\<open>enqueueUpdate\<close> again while the flush runs and never throws.
\<close>

definition idle :: scheduler where
  "idle = \<lparr>dirtyComponents = [], global_updateBatchNumber = 0, asapCallbackQueue = [],
            asapEnqueued = False, events = []\<rparr>"

definition inner_then_outer :: scheduler where
  "inner_then_outer =
     run_requests [EnqueueUpdate (Component 2 None None []),
                   EnqueueUpdate (Component 1 None None [])] idle"

definition busy :: scheduler where
  "busy =
     run_requests
       [EnqueueUpdate (Component 2 None (Some [Task 20 [Asap (Task 21 [] None) 0] None])
                         [Asap (Task 22 [Asap (Task 23 [] None) 0] None) 0]),
        EnqueueUpdate (Component 1 None None [EnqueueUpdate (Component 3 None None [])]),
        Asap (Task 24 [] None) 0] idle"

text \<open>A state with two callbacks passed to \<^verbatim>\<open>asap\<close>, the first of which throws.\<close>

definition faulty :: scheduler where
  "faulty = run_requests [Asap (Task 1 [] (Some boom)) 0, Asap (Task 2 [] None) 0] idle"

text \<open>An instance whose \<^verbatim>\<open>componentWillUnmount\<close> returns.\<close>

definition returning_hook :: "effect hook_fn" where
  "returning_hook props state context = no_effect"

definition quiet_inst :: pubinst where
  "quiet_inst = counter_inst\<lparr>inst_methods := no_hooks\<lparr>componentWillUnmount := Some returning_hook\<rparr>\<rparr>"

definition quiet_this :: composite where
  "quiet_this = counter\<lparr>instance' := Some quiet_inst, mountOrder := 8\<rparr>"

section \<open>The state merge: empty queue and replace-state law\<close>

text \<open>
  C8. With no pending state queue, \<^verbatim>\<open>_processPendingState\<close> returns \<^verbatim>\<open>inst.state\<close> itself:
  the same value with the same identity, and no object is allocated (the next free identity
  is unchanged). Only the queue and the replace flag of the instance are cleared.
\<close>

theorem processPendingState_empty_queue:
  assumes "pendingStateQueue this = None" and "instance' this = Some inst"
  shows "processPendingState fns this props ctx oid =
           (Inr (inst_state inst),
            this\<lparr>pendingReplaceState := False, pendingStateQueue := None\<rparr>, oid)"
  using assms by (simp add: processPendingState_def)

theorem processPendingState_empty_queue_witness:
  "pendingStateQueue counter = None \<and> instance' counter = Some counter_inst \<and>
   processPendingState increment counter (Obj 1 []) (Obj 2 []) 7 =
     (Inr (Obj 3 [(''n'', Num 0)]), counter, 7)"
  using processPendingState_empty_queue [of counter counter_inst increment "Obj 1 []" "Obj 2 []" 7]
  by (simp add: counter_def construct_def counter_inst_def)

text \<open>
  C3. The replace-state law. With the replace flag set: a queue of exactly one entry returns
  that entry verbatim (same identity, nothing allocated); a longer queue starts the
  accumulation from the properties of the first entry, not from \<^verbatim>\<open>inst.state\<close>, and merges
  the remaining entries in order into a new object; and, for updaters that do not read
  \<^verbatim>\<open>this.state\<close>, the result does not depend on the existing state at all.
\<close>

theorem processPendingState_replace_law:
  assumes "pendingReplaceState this"
  shows "(pendingStateQueue this = Some [s] \<longrightarrow>
            processPendingState fns this props ctx oid =
              (Inr s, this\<lparr>pendingReplaceState := False, pendingStateQueue := None\<rparr>, oid))
       \<and> (pendingStateQueue this = Some (s # p # ps) \<longrightarrow>
            processPendingState fns this props ctx oid =
              (Inr (Obj oid (fold (merge_partial fns (instance' this) oid props ctx) (p # ps)
                               (assign [] s))),
               this\<lparr>pendingReplaceState := False, pendingStateQueue := None\<rparr>, Suc oid))
       \<and> (pendingStateQueue this = Some (s # q) \<and> instance' this = Some inst
              \<and> (\<forall>f i st. fns f (Some (i\<lparr>inst_state := st\<rparr>)) = fns f (Some i)) \<longrightarrow>
            fst (processPendingState fns (this\<lparr>instance' := Some (inst\<lparr>inst_state := st'\<rparr>)\<rparr>)
                   props ctx oid) =
            fst (processPendingState fns this props ctx oid))"
proof (intro conjI impI)
  assume "pendingStateQueue this = Some [s]"
  with assms show "processPendingState fns this props ctx oid =
      (Inr s, this\<lparr>pendingReplaceState := False, pendingStateQueue := None\<rparr>, oid)"
    by (simp add: processPendingState_def)
next
  assume "pendingStateQueue this = Some (s # p # ps)"
  with assms show "processPendingState fns this props ctx oid =
      (Inr (Obj oid (fold (merge_partial fns (instance' this) oid props ctx) (p # ps)
                       (assign [] s))),
       this\<lparr>pendingReplaceState := False, pendingStateQueue := None\<rparr>, Suc oid)"
    by (simp add: processPendingState_def Let_def)
next
  assume h: "pendingStateQueue this = Some (s # q) \<and> instance' this = Some inst
              \<and> (\<forall>f i st. fns f (Some (i\<lparr>inst_state := st\<rparr>)) = fns f (Some i))"
  then have eq: "merge_partial fns (Some (inst\<lparr>inst_state := st'\<rparr>)) oid props ctx =
        merge_partial fns (Some inst) oid props ctx"
    by (intro ext) (simp add: merge_partial_def split: jsval.splits)
  from h assms show "fst (processPendingState fns
        (this\<lparr>instance' := Some (inst\<lparr>inst_state := st'\<rparr>)\<rparr>) props ctx oid) =
      fst (processPendingState fns this props ctx oid)"
    by (cases q) (simp_all add: processPendingState_def eq Let_def)
qed

lemma replacing_fields:
  "pendingReplaceState (replacing q)" "pendingStateQueue (replacing q) = Some q"
  "instance' (replacing q) = Some counter_inst"
  by (simp_all add: replacing_def counter_def)

lemma increment_ignores_this: "increment f (Some (i\<lparr>inst_state := st\<rparr>)) = increment f (Some i)"
  by (intro ext) (simp add: increment_def)

theorem processPendingState_replace_law_witness:
  "processPendingState increment (replacing [Obj 5 [(''n'', Num 7)]]) (Obj 1 []) (Obj 2 []) 9 =
     (Inr (Obj 5 [(''n'', Num 7)]),
      (replacing [Obj 5 [(''n'', Num 7)]])\<lparr>pendingReplaceState := False, pendingStateQueue := None\<rparr>, 9)
  \<and> fst (processPendingState increment (replacing [Obj 5 [(''n'', Num 7)], Fun 0, Obj 6 [(''m'', Num 1)]])
         (Obj 1 []) (Obj 2 []) 9) = Inr (Obj 9 [(''n'', Num 8), (''m'', Num 1)])
  \<and> fst (processPendingState increment
         ((replacing [Obj 5 [(''n'', Num 7)], Fun 0])
            \<lparr>instance' := Some (counter_inst\<lparr>inst_state := Obj 4 [(''n'', Num 41)]\<rparr>)\<rparr>)
         (Obj 1 []) (Obj 2 []) 9) =
    fst (processPendingState increment (replacing [Obj 5 [(''n'', Num 7)], Fun 0]) (Obj 1 []) (Obj 2 []) 9)"
proof (intro conjI)
  show "processPendingState increment (replacing [Obj 5 [(''n'', Num 7)]]) (Obj 1 []) (Obj 2 []) 9 =
     (Inr (Obj 5 [(''n'', Num 7)]),
      (replacing [Obj 5 [(''n'', Num 7)]])\<lparr>pendingReplaceState := False, pendingStateQueue := None\<rparr>, 9)"
    using processPendingState_replace_law [OF replacing_fields(1), THEN conjunct1]
    by (simp add: replacing_fields)
next
  have "fold (merge_partial increment (Some counter_inst) 9 (Obj 1 []) (Obj 2 []))
          [Fun 0, Obj 6 [(''m'', Num 1)]] (assign [] (Obj 5 [(''n'', Num 7)])) =
        [(''n'', Num 8), (''m'', Num 1)]"
    by (simp add: merge_partial_def assign_def increment_def)
  then show "fst (processPendingState increment (replacing [Obj 5 [(''n'', Num 7)], Fun 0, Obj 6 [(''m'', Num 1)]])
         (Obj 1 []) (Obj 2 []) 9) = Inr (Obj 9 [(''n'', Num 8), (''m'', Num 1)])"
    using processPendingState_replace_law [where this = "replacing [Obj 5 [(''n'', Num 7)], Fun 0, Obj 6 [(''m'', Num 1)]]" and s = "Obj 5 [(''n'', Num 7)]" and p = "Fun 0" and ps = "[Obj 6 [(''m'', Num 1)]]"
          and fns = increment and props = "Obj 1 []" and ctx = "Obj 2 []" and oid = 9]
    by (simp add: replacing_fields)
next
  show "fst (processPendingState increment
         ((replacing [Obj 5 [(''n'', Num 7)], Fun 0])
            \<lparr>instance' := Some (counter_inst\<lparr>inst_state := Obj 4 [(''n'', Num 41)]\<rparr>)\<rparr>)
         (Obj 1 []) (Obj 2 []) 9) =
    fst (processPendingState increment (replacing [Obj 5 [(''n'', Num 7)], Fun 0]) (Obj 1 []) (Obj 2 []) 9)"
    using processPendingState_replace_law [where this = "replacing [Obj 5 [(''n'', Num 7)], Fun 0]" and s = "Obj 5 [(''n'', Num 7)]" and q = "[Fun 0]" and inst = counter_inst
          and fns = increment and st' = "Obj 4 [(''n'', Num 41)]" and props = "Obj 1 []"
          and ctx = "Obj 2 []" and oid = 9]
    by (simp add: replacing_fields increment_ignores_this)
qed

section \<open>The decision to update\<close>

lemma enqueueSetState_fields:
  "pendingForceUpdate (enqueueSetState ps this) = pendingForceUpdate this"
  "compositeType (enqueueSetState ps this) = compositeType this"
  "instance' (enqueueSetState ps this) = instance' this"
  by (simp_all add: enqueueSetState_def)

lemma receive_props_fields:
  assumes "receive_props this inst w np nc = (r, this1)"
  shows "pendingForceUpdate this1 = pendingForceUpdate this"
    and "compositeType this1 = compositeType this"
    and "instance' this1 = instance' this"
  using assms
  by (auto simp: receive_props_def run_hook_def enqueueSetState_fields split: option.splits if_splits)

lemma processPendingState_fields:
  assumes "processPendingState fns this p c oid = (r, this2, oid2)"
  shows "pendingForceUpdate this2 = pendingForceUpdate this"
    and "compositeType this2 = compositeType this"
    and "instance' this2 = instance' this"
  using assms
  by (auto simp: processPendingState_def Let_def split: option.splits if_splits sum.splits)

text \<open>
  C4. How \<^verbatim>\<open>updateComponent\<close> decides between re-rendering and only committing the next
  values, once \<^verbatim>\<open>componentWillReceiveProps\<close> has returned and the pending state has been
  merged into \<open>nextState\<close>: a pending force flag decides for the update; otherwise the
  \<^verbatim>\<open>shouldComponentUpdate\<close> hook, when the component defines one, decides (and its error
  propagates); otherwise a pure component updates exactly when the previous and next props,
  or the current and the merged state, are not shallowly equal; any other component updates.
\<close>

theorem updateComponent_shouldUpdate:
  assumes "instance' this = Some inst"
    and "next_context this inst nextUnmasked = (nextContext, contextChanged)"
    and "receive_props this inst
           (contextChanged \<or> element_id prevElement \<noteq> element_id nextElement)
           (element_props nextElement) nextContext = (None, this1)"
    and "processPendingState fns this1 (element_props nextElement) nextContext oid =
           (Inr nextState, this2, oid2)"
  shows "fst (updateComponent fns this prevElement nextElement prevUnmasked nextUnmasked oid) =
     (case (if pendingForceUpdate this then Inr True
            else case shouldComponentUpdate (inst_methods inst) of
                   Some hook \<Rightarrow>
                     hook (inst_props inst) (inst_state inst) (inst_context inst)
                       (element_props nextElement) nextState nextContext
                 | None \<Rightarrow>
                     if compositeType this = Some PureClass
                     then Inr (\<not> shallowEqual (element_props prevElement) (element_props nextElement) \<or>
                               \<not> shallowEqual (inst_state inst) nextState)
                     else Inr True) of
        Inl e \<Rightarrow> Inl e
      | Inr should \<Rightarrow>
          Inr (if should
               then PerformComponentUpdate nextElement (element_props nextElement) nextState
                      nextContext nextUnmasked
               else NoUpdate))"
proof -
  have f1: "pendingForceUpdate this2 = pendingForceUpdate this"
    and f2: "compositeType this2 = compositeType this"
    using receive_props_fields [OF assms(3)] processPendingState_fields [OF assms(4)] by simp_all
  have su: "shouldUpdate this2 inst (element_props prevElement) (element_props nextElement)
              nextState nextContext =
            (if pendingForceUpdate this then Inr True
             else case shouldComponentUpdate (inst_methods inst) of
                   Some hook \<Rightarrow>
                     hook (inst_props inst) (inst_state inst) (inst_context inst)
                       (element_props nextElement) nextState nextContext
                 | None \<Rightarrow>
                     if compositeType this = Some PureClass
                     then Inr (\<not> shallowEqual (element_props prevElement) (element_props nextElement) \<or>
                               \<not> shallowEqual (inst_state inst) nextState)
                     else Inr True)"
    by (simp add: shouldUpdate_def f1 f2)
  have "fst (updateComponent fns this prevElement nextElement prevUnmasked nextUnmasked oid) =
     (case shouldUpdate this2 inst (element_props prevElement) (element_props nextElement)
              nextState nextContext of
        Inl e \<Rightarrow> Inl e
      | Inr should \<Rightarrow>
          Inr (if should
               then PerformComponentUpdate nextElement (element_props nextElement) nextState
                      nextContext nextUnmasked
               else NoUpdate))"
    by (simp add: updateComponent_def assms Let_def split: sum.splits)
  then show ?thesis by (simp only: su)
qed


text \<open>The pure counter: \<^verbatim>\<open>setState({})\<close> leaves it as it is, an increment re-renders it.\<close>

lemma pure_counter_fields:
  "instance' (pure_counter q) = Some counter_inst"
  "next_context (pure_counter q) counter_inst Null = (Obj 2 [], False)"
  "receive_props (pure_counter q) counter_inst False p c = (None, pure_counter q)"
  "pendingForceUpdate (pure_counter q) = False"
  "compositeType (pure_counter q) = Some PureClass"
  by (simp_all add: pure_counter_def counter_def construct_def next_context_def strict_equal_def
      counter_inst_def receive_props_def)

lemma counter_inst_fields:
  "shouldComponentUpdate (inst_methods counter_inst) = None"
  "inst_state counter_inst = Obj 3 [(''n'', Num 0)]"
  by (simp_all add: counter_inst_def no_hooks_def)

theorem updateComponent_shouldUpdate_witness:
  "fst (updateComponent increment (pure_counter [Obj 8 []]) counter_element counter_element
          Null Null 9) = Inr NoUpdate
   \<and> fst (updateComponent increment (pure_counter [Fun 0]) counter_element counter_element
          Null Null 9) =
       Inr (PerformComponentUpdate counter_element (Obj 1 []) (Obj 9 [(''n'', Num 1)])
              (Obj 2 []) Null)"
proof
  have m: "processPendingState increment (pure_counter [Obj 8 []])
             (element_props counter_element) (Obj 2 []) 9 =
           (Inr (Obj 9 [(''n'', Num 0)]),
            (pure_counter [Obj 8 []])\<lparr>pendingReplaceState := False, pendingStateQueue := None\<rparr>, 10)"
    by (simp add: processPendingState_def pure_counter_def counter_def construct_def
        counter_inst_def assign_def merge_partial_def)
  have r: "receive_props (pure_counter [Obj 8 []]) counter_inst
             (False \<or> element_id counter_element \<noteq> element_id counter_element)
             (element_props counter_element) (Obj 2 []) = (None, pure_counter [Obj 8 []])"
    by (simp add: pure_counter_fields)
  show "fst (updateComponent increment (pure_counter [Obj 8 []]) counter_element counter_element
          Null Null 9) = Inr NoUpdate"
    using updateComponent_shouldUpdate [OF pure_counter_fields(1) pure_counter_fields(2) r m,
        where prevUnmasked = Null]
    by (simp add: pure_counter_fields counter_inst_fields counter_element_def shallowEqual_def
        strict_equal_def)
next
  have m: "processPendingState increment (pure_counter [Fun 0])
             (element_props counter_element) (Obj 2 []) 9 =
           (Inr (Obj 9 [(''n'', Num 1)]),
            (pure_counter [Fun 0])\<lparr>pendingReplaceState := False, pendingStateQueue := None\<rparr>, 10)"
    by (simp add: processPendingState_def pure_counter_def counter_def construct_def
        counter_inst_def assign_def merge_partial_def increment_def)
  have r: "receive_props (pure_counter [Fun 0]) counter_inst
             (False \<or> element_id counter_element \<noteq> element_id counter_element)
             (element_props counter_element) (Obj 2 []) = (None, pure_counter [Fun 0])"
    by (simp add: pure_counter_fields)
  show "fst (updateComponent increment (pure_counter [Fun 0]) counter_element counter_element
          Null Null 9) =
       Inr (PerformComponentUpdate counter_element (Obj 1 []) (Obj 9 [(''n'', Num 1)])
              (Obj 2 []) Null)"
    using updateComponent_shouldUpdate [OF pure_counter_fields(1) pure_counter_fields(2) r m,
        where prevUnmasked = Null]
    by (simp add: pure_counter_fields counter_inst_fields counter_element_def shallowEqual_def
        strict_equal_def)
qed

section \<open>Draining a callback queue\<close>

lemma enqueue_effect:
  assumes "queue_ok w" and "detached a b w"
  shows "queue_ok (enqueue cb c w)"
    and "detached a b (enqueue cb c w)"
    and "queued_pairs (enqueue cb c w) = queued_pairs w @ [(Some cb, c)]"
    and "invoked (enqueue cb c w) = invoked w"
    and "callback_arrays (enqueue cb c w) a = callback_arrays w a"
    and "context_arrays (enqueue cb c w) b = context_arrays w b"
  using assms
  by (auto simp: queue_ok_def detached_def enqueue_def queued_pairs_def Let_def
      split: option.splits)

lemma run_actions_effect:
  assumes "queue_ok w" and "detached a b w" and "returns body"
  shows "\<exists>w'. run_actions body w = (None, w') \<and> queue_ok w' \<and> detached a b w' \<and>
           queued_pairs w' = queued_pairs w @ enqueued_by body \<and>
           invoked w' = invoked w \<and>
           callback_arrays w' a = callback_arrays w a \<and>
           context_arrays w' b = context_arrays w b"
  using assms
proof (induction body arbitrary: w)
  case Nil
  then show ?case by simp
next
  case (Cons x body)
  show ?case
  proof (cases x)
    case (Enqueue cb c)
    from Cons.prems have r: "returns body" using Enqueue by simp
    from Cons.IH [OF enqueue_effect(1,2) [OF Cons.prems(1,2)] r, of cb c]
    show ?thesis
      using Enqueue enqueue_effect(3-6) [OF Cons.prems(1,2), of cb c] by auto
  next
    case (Raise e)
    with Cons.prems show ?thesis by simp
  qed
qed


lemma call_effect:
  assumes "queue_ok w" and "detached a b w" and "returns (callback_body cb)"
  shows "\<exists>w'. call cb c arg w = (None, w') \<and> queue_ok w' \<and> detached a b w' \<and>
           queued_pairs w' = queued_pairs w @ enqueued_by (callback_body cb) \<and>
           invoked w' = invoked w @ [(callback_name cb, c, arg)] \<and>
           callback_arrays w' a = callback_arrays w a \<and>
           context_arrays w' b = context_arrays w b"
proof (cases cb)
  case (Callback name body)
  let ?w = "w\<lparr>invoked := invoked w @ [(name, c, arg)]\<rparr>"
  have "queue_ok ?w" and "detached a b ?w"
    using assms(1,2) by (auto simp: queue_ok_def detached_def split: option.splits)
  moreover have "queued_pairs ?w = queued_pairs w" "invoked ?w = invoked w @ [(name, c, arg)]"
    "callback_arrays ?w a = callback_arrays w a" "context_arrays ?w b = context_arrays w b"
    by (simp_all add: queued_pairs_def split: option.splits)
  moreover have "returns body" using assms(3) Callback by simp
  ultimately show ?thesis
    using run_actions_effect [of ?w a b body] Callback by simp
qed

lemma notify_loop_effect:
  assumes "queue_ok w" and "detached a b w"
    and "callback_arrays w a = map Some cbs" and "context_arrays w b = ctxs"
    and "length ctxs = length cbs" and "i \<le> length cbs"
    and "\<forall>cb \<in> set (drop i cbs). returns (callback_body cb)"
  shows "\<exists>w'. notify_loop a b arg i w = Some (None, w') \<and> queue_ok w' \<and> detached a b w' \<and>
           queued_pairs w' =
             queued_pairs w @ concat (map (\<lambda>cb. enqueued_by (callback_body cb)) (drop i cbs)) \<and>
           invoked w' =
             invoked w @ map (\<lambda>(cb, c). (callback_name cb, c, arg)) (drop i (zip cbs ctxs)) \<and>
           callback_arrays w' a = map Some cbs \<and> context_arrays w' b = ctxs"
  using assms
proof (induction "length cbs - i" arbitrary: i w)
  case 0
  then have "i = length cbs" by simp
  with 0 show ?case by (subst notify_loop.simps) simp
next
  case (Suc n)
  then have lt: "i < length cbs" by simp
  have ret: "returns (callback_body (cbs ! i))"
    using Suc.prems(7) lt by (metis drop_eq_Nil hd_drop_conv_nth hd_in_set linorder_not_le)
  from call_effect [OF Suc.prems(1,2) ret, of "ctxs ! i" arg]
  obtain w1 where w1: "call (cbs ! i) (ctxs ! i) arg w = (None, w1)" "queue_ok w1" "detached a b w1"
      "queued_pairs w1 = queued_pairs w @ enqueued_by (callback_body (cbs ! i))"
      "invoked w1 = invoked w @ [(callback_name (cbs ! i), ctxs ! i, arg)]"
      "callback_arrays w1 a = callback_arrays w a" "context_arrays w1 b = context_arrays w b"
    by blast
  have rest: "\<forall>cb \<in> set (drop (Suc i) cbs). returns (callback_body cb)"
    using Suc.prems(7) by (metis drop_Suc in_set_dropD set_drop_subset subsetD tl_drop Cons_nth_drop_Suc lt list.set_intros(2))
  have n: "n = length cbs - Suc i" using Suc.hyps(2) by simp
  have a1: "callback_arrays w1 a = map Some cbs" and a2: "context_arrays w1 b = ctxs"
    using w1(6,7) Suc.prems(3,4) by simp_all
  have le: "Suc i \<le> length cbs" using lt by simp
  from Suc.hyps(1) [OF n w1(2,3) a1 a2 Suc.prems(5) le rest]
  obtain w' where w': "notify_loop a b arg (Suc i) w1 = Some (None, w')" "queue_ok w'" "detached a b w'"
      "queued_pairs w' =
         queued_pairs w1 @ concat (map (\<lambda>cb. enqueued_by (callback_body cb)) (drop (Suc i) cbs))"
      "invoked w' =
         invoked w1 @ map (\<lambda>(cb, c). (callback_name cb, c, arg)) (drop (Suc i) (zip cbs ctxs))"
      "callback_arrays w' a = map Some cbs" "context_arrays w' b = ctxs"
    by blast
  have step: "notify_loop a b arg i w = notify_loop a b arg (Suc i) w1"
    using lt Suc.prems(3,4,5) w1(1) by (subst notify_loop.simps) simp
  have d1: "drop i cbs = cbs ! i # drop (Suc i) cbs"
    using lt by (simp add: Cons_nth_drop_Suc)
  have d2: "drop i (zip cbs ctxs) = (cbs ! i, ctxs ! i) # drop (Suc i) (zip cbs ctxs)"
  proof -
    have "i < length (zip cbs ctxs)" using lt Suc.prems(5) by simp
    from Cons_nth_drop_Suc [OF this, symmetric] show ?thesis
      using lt Suc.prems(5) by simp
  qed
  show ?case
    using step w' w1(4,5) d1 d2 by simp
qed



lemma one_queued_fields:
  "callbacks_field one_queued = Some 0" "contexts_field one_queued = Some 1"
  "next_array one_queued = 2" "callback_arrays one_queued 0 = map Some [parent_callback]"
  "context_arrays one_queued (Suc 0) = [Str ''parent'']" "arg_field one_queued = Num 7"
  "invoked one_queued = []"
  by (simp_all add: one_queued_def enqueue_def new_queue_def Let_def)



section \<open>What mounting and unmounting do to the world\<close>

text \<open>
  Auxiliary facts: every operation extends the world, a mount keeps the mount order it
  stamped, and a mount that returns leaves a subtree whose mount orders are the values the
  counter took during it.
\<close>

lemma stamps_append: "stamps (xs @ ys) = stamps xs @ stamps ys"
  by (induction xs rule: stamps.induct) simp_all

lemma stamped_within_mono:
  "stamped_within lo hi ms \<Longrightarrow> lo' \<le> lo \<Longrightarrow> hi \<le> hi' \<Longrightarrow> stamped_within lo' hi' ms"
  by (auto simp: stamped_within_def list_all_iff)

lemma stamped_within_append:
  "stamped_within lo hi (xs @ ys) = (stamped_within lo hi xs \<and> stamped_within lo hi ys)"
  by (simp add: stamped_within_def)

lemma extends_refl: "extends w w"
  by (simp add: extends_def stamped_within_def)

lemma extends_trans:
  assumes "extends w w1" and "extends w1 w2"
  shows "extends w w2"
proof -
  from assms obtain e1 e2 where
    e1: "trace w1 = trace w @ e1" "stamped_within (nextMountID w) (nextMountID w1) (stamps e1)"
    and e2: "trace w2 = trace w1 @ e2" "stamped_within (nextMountID w1) (nextMountID w2) (stamps e2)"
    and le: "nextMountID w \<le> nextMountID w1" "nextMountID w1 \<le> nextMountID w2"
    by (auto simp: extends_def)
  have "stamped_within (nextMountID w) (nextMountID w2) (stamps (e1 @ e2))"
    using stamped_within_mono [OF e1(2), of "nextMountID w" "nextMountID w2"]
      stamped_within_mono [OF e2(2), of "nextMountID w" "nextMountID w2"] le
    by (simp add: stamps_append stamped_within_append)
  then show ?thesis
    using e1(1) e2(1) le unfolding extends_def by (intro conjI exI [of _ "e1 @ e2"]) auto
qed

lemma extends_same:
  assumes "extends w w1" and "trace w2 = trace w1" and "nextMountID w2 = nextMountID w1"
  shows "extends w w2"
  using assms by (simp add: extends_def)

lemma extends_record_event:
  assumes "extends w w1" and "\<And>m. ev \<noteq> Stamped m"
  shows "extends w (record_event ev w1)"
proof -
  have "extends w1 (record_event ev w1)"
    using assms(2) by (cases ev) (auto simp: extends_def record_event_def stamped_within_def)
  with assms(1) show ?thesis by (rule extends_trans)
qed

lemma extends_stamp:
  "extends w (record_event (Stamped (nextMountID w)) (w\<lparr>nextMountID := Suc (nextMountID w)\<rparr>))"
  by (simp add: extends_def record_event_def stamped_within_def)

lemma extends_checkpoint: "extends w (snd (transaction_checkpoint w))"
  by (simp add: transaction_checkpoint_def extends_record_event extends_refl)

lemma extends_rollback: "extends w (transaction_rollback n w)"
  unfolding transaction_rollback_def
  by (rule extends_record_event) (simp_all add: extends_def stamped_within_def)

lemma extends_guarded: "extends w (invokeGuardedCallback r w)"
  by (auto simp: invokeGuardedCallback_def extends_def stamped_within_def split: option.splits)

lemma callComponentWillUnmount_extends:
  "callComponentWillUnmount safely this inst w = (r, this1, w1) \<Longrightarrow> extends w w1"
  by (auto simp: callComponentWillUnmount_def Let_def extends_refl extends_record_event
      intro!: extends_trans [OF _ extends_guarded]
      split: option.splits if_splits prod.splits)

lemma unmount_extends:
  "unmountComponent safely t w = (r, t1, w1) \<Longrightarrow> extends w w1"
  "unmountChildren safely ts w = (r, ts1, w1) \<Longrightarrow> extends w w1"
proof (induction safely t w and safely ts w arbitrary: r t1 w1 and r ts1 w1
    rule: unmountComponent_unmountChildren.induct)
  case (1 safely w)
  then show ?case by (simp add: extends_refl)
next
  case (2 safely element children w)
  then show ?case by (auto split: prod.splits option.splits)
next
  case (3 safely this w)
  then show ?case by (simp add: extends_refl)
next
  case (4 safely this child w)
  show ?case
  proof (cases "instance' this")
    case None
    with 4 show ?thesis by (simp add: extends_refl)
  next
    case (Some inst)
    obtain r0 this0 w0 where c: "callComponentWillUnmount safely this inst w = (r0, this0, w0)"
      by (cases "callComponentWillUnmount safely this inst w") auto
    note e0 = callComponentWillUnmount_extends [OF c]
    show ?thesis
    proof (cases r0)
      case (Some e)
      with 4 c \<open>instance' this = Some inst\<close> e0 show ?thesis by simp
    next
      case None
      obtain r2 child2 w2 where u: "unmountComponent safely child w0 = (r2, child2, w2)"
        by (cases "unmountComponent safely child w0") auto
      from "4.IH" [OF \<open>instance' this = Some inst\<close> c [symmetric] _ _ u] None
      have "extends w0 w2" by simp
      with e0 have "extends w w2" by (rule extends_trans)
      with 4 c \<open>instance' this = Some inst\<close> None u show ?thesis
        by (auto split: option.splits)
    qed
  qed
next
  case (5 safely w)
  then show ?case by (simp add: extends_refl)
next
  case (6 safely child children w)
  obtain r0 c0 w0 where u: "unmountComponent safely child w = (r0, c0, w0)"
    by (cases "unmountComponent safely child w") auto
  from "6.IH"(1) [OF u] have e0: "extends w w0" .
  show ?case
  proof (cases r0)
    case (Some e)
    with 6 u e0 show ?thesis by simp
  next
    case None
    obtain r2 cs2 w2 where v: "unmountChildren safely children w0 = (r2, cs2, w2)"
      by (cases "unmountChildren safely children w0") auto
    from "6.IH"(2) [OF u [symmetric] _ _ v] None have "extends w0 w2" by simp
    with e0 have "extends w w2" by (rule extends_trans)
    with 6 u None v show ?thesis by simp
  qed
qed


lemma run_hook_mountOrder: "run_hook eff this = (r, this1) \<Longrightarrow> mountOrder this1 = mountOrder this"
  by (auto simp: run_hook_def enqueueSetState_def)

lemma processPendingState_mountOrder:
  "processPendingState fns this p c oid = (r, this1, oid1) \<Longrightarrow> mountOrder this1 = mountOrder this"
  by (auto simp: processPendingState_def Let_def split: option.splits if_splits sum.splits)

lemma mergePendingState_effect:
  assumes "mergePendingState fns this w = (r, this1, w1)"
  shows "extends w w1" and "mountOrder this1 = mountOrder this"
  using assms
  by (auto simp: mergePendingState_def extends_refl
      intro: extends_same [OF extends_refl] dest: processPendingState_mountOrder
      split: option.splits prod.splits sum.splits)

lemma callComponentWillMount_effect:
  assumes "callComponentWillMount fns this inst w = (r, this1, w1)"
  shows "extends w w1" and "mountOrder this1 = mountOrder this"
proof -
  have ev: "extends w (record_event (WillMount (mountOrder this)) w)"
    by (simp add: extends_record_event extends_refl)
  show "extends w w1"
    using assms ev
    by (auto simp: callComponentWillMount_def extends_refl
        dest!: mergePendingState_effect(1) intro: extends_trans
        split: option.splits prod.splits)
  show "mountOrder this1 = mountOrder this"
    using assms
    by (auto simp: callComponentWillMount_def
        dest!: mergePendingState_effect(2) run_hook_mountOrder
        split: option.splits prod.splits)
qed

lemma renderChild_extends: "renderChild this inst re w = (r, w1) \<Longrightarrow> extends w w1"
  by (auto simp: renderChild_def extends_refl extends_record_event
      split: if_splits prod.splits sum.splits)

lemma handleError_effect:
  assumes "handleError fns cp this e w = (r, this1, w1)"
  shows "extends w w1" and "mountOrder this1 = mountOrder this"
proof -
  have ev: "extends w (record_event (HandledError (mountOrder this) e) (transaction_rollback cp w))"
    by (simp add: extends_record_event extends_rollback)
  show "extends w w1"
    using assms ev
    by (auto simp: handleError_def extends_rollback
        dest!: mergePendingState_effect(1) intro: extends_trans
        split: option.splits prod.splits)
  show "mountOrder this1 = mountOrder this"
    using assms
    by (auto simp: handleError_def
        dest!: mergePendingState_effect(2) run_hook_mountOrder
        split: option.splits prod.splits)
qed

lemma performInitialMount_effect:
  assumes "good_mounter m"
    and "performInitialMount m fns this rc re ctx w = Some (r, this1, rc1, w1)"
  shows "extends w w1" and "mountOrder this1 = mountOrder this"
    and "r = None \<Longrightarrow> \<exists>child. rc1 = Some child \<and> ancestors_first child \<and>
           stamped_within (nextMountID w) (nextMountID w1) (mount_orders child)"
proof -
  have "extends w w1 \<and> mountOrder this1 = mountOrder this \<and>
      (r = None \<longrightarrow> (\<exists>child. rc1 = Some child \<and> ancestors_first child \<and>
           stamped_within (nextMountID w) (nextMountID w1) (mount_orders child)))"
  proof (cases "instance' this")
    case None
    with assms(2) show ?thesis by (auto simp: performInitialMount_def extends_refl)
  next
    case (Some inst)
    obtain r0 this0 w0 where c: "callComponentWillMount fns this inst w = (r0, this0, w0)"
      by (cases "callComponentWillMount fns this inst w") auto
    note c0 = callComponentWillMount_effect [OF c]
    show ?thesis
    proof (cases r0)
      case (Some e)
      with assms(2) c \<open>instance' this = Some inst\<close> c0 show ?thesis
        by (auto simp: performInitialMount_def)
    next
      case None
      note r0 = None
      show ?thesis
      proof (cases "instance' this0")
        case None
        with assms(2) c \<open>instance' this = Some inst\<close> c0 r0 show ?thesis
          by (auto simp: performInitialMount_def)
      next
        case (Some inst0)
        obtain rr w2 where rc: "renderChild this0 inst0 re w0 = (rr, w2)"
          by (cases "renderChild this0 inst0 re w0") auto
        have e2: "extends w w2"
          using c0(1) renderChild_extends [OF rc] by (rule extends_trans)
        show ?thesis
        proof (cases rr)
          case (Inl e)
          with assms(2) c \<open>instance' this = Some inst\<close> c0 r0 Some rc e2 show ?thesis
            by (auto simp: performInitialMount_def)
        next
          case (Inr child)
          let ?w3 = "record_event (ChildStored (mountOrder this0)) w2"
          have e3: "extends w ?w3" using e2 by (simp add: extends_record_event)
          from assms(2) c \<open>instance' this = Some inst\<close> r0 Some rc Inr
          obtain child1 where m: "m child ctx ?w3 = Some (r, child1, w1)"
            and res: "this1 = this0" "rc1 = Some child1"
            by (auto simp: performInitialMount_def split: option.splits)
          from assms(1) m have g: "extends ?w3 w1"
            "r = None \<longrightarrow> ancestors_first child1 \<and>
               stamped_within (nextMountID ?w3) (nextMountID w1) (mount_orders child1)"
            unfolding good_mounter_def by blast+
          have "nextMountID w \<le> nextMountID ?w3" using e3 by (simp add: extends_def)
          with g(2) have "r = None \<longrightarrow> ancestors_first child1 \<and>
               stamped_within (nextMountID w) (nextMountID w1) (mount_orders child1)"
            using stamped_within_mono by blast
          with extends_trans [OF e3 g(1)] res c0(2) show ?thesis by simp
        qed
      qed
    qed
  qed
  then show "extends w w1" and "mountOrder this1 = mountOrder this"
    and "r = None \<Longrightarrow> \<exists>child. rc1 = Some child \<and> ancestors_first child \<and>
           stamped_within (nextMountID w) (nextMountID w1) (mount_orders child)"
    by simp_all
qed


lemma performInitialMountWithErrorHandling_effect:
  assumes "good_mounter m"
    and "performInitialMountWithErrorHandling m fns this rc re ctx w = Some (r, this1, rc1, w1)"
  shows "extends w w1" and "mountOrder this1 = mountOrder this"
    and "r = None \<Longrightarrow> \<exists>child. rc1 = Some child \<and> ancestors_first child \<and>
           stamped_within (nextMountID w) (nextMountID w1) (mount_orders child)"
proof -
  obtain cp w0 where cp: "transaction_checkpoint w = (cp, w0)"
    by (cases "transaction_checkpoint w") auto
  have e0: "extends w w0" using extends_checkpoint [of w] cp by simp
  from assms(2) cp obtain ra thisa rca wa where
    first: "performInitialMount m fns this rc re ctx w0 = Some (ra, thisa, rca, wa)"
    by (auto simp: performInitialMountWithErrorHandling_def split: option.splits)
  note f = performInitialMount_effect [OF assms(1) first]
  have ea: "extends w wa" using e0 f(1) by (rule extends_trans)
  have lo0: "nextMountID w \<le> nextMountID w0" using e0 by (simp add: extends_def)
  have "extends w w1 \<and> mountOrder this1 = mountOrder this \<and>
      (r = None \<longrightarrow> (\<exists>child. rc1 = Some child \<and> ancestors_first child \<and>
           stamped_within (nextMountID w) (nextMountID w1) (mount_orders child)))"
  proof (cases ra)
    case None
    with assms(2) cp first have "r = None" "this1 = thisa" "rc1 = rca" "w1 = wa"
      by (simp_all add: performInitialMountWithErrorHandling_def)
    with f(2,3) ea None lo0 show ?thesis
      using stamped_within_mono by blast
  next
    case (Some e)
    obtain rb thisb wb where h: "handleError fns cp thisa e wa = (rb, thisb, wb)"
      by (cases "handleError fns cp thisa e wa") auto
    note hb = handleError_effect [OF h]
    have eb: "extends w wb" using ea hb(1) by (rule extends_trans)
    show ?thesis
    proof (cases rb)
      case (Some e2)
      with assms(2) cp first \<open>ra = Some e\<close> h eb hb(2) f(2) show ?thesis
        by (auto simp: performInitialMountWithErrorHandling_def)
    next
      case None
      note rb = None
      obtain cp2 wc where cp2: "transaction_checkpoint wb = (cp2, wc)"
        by (cases "transaction_checkpoint wb") auto
      have ec: "extends w wc" using eb extends_checkpoint [of wb] cp2 extends_trans by fastforce
      show ?thesis
      proof (cases rca)
        case None
        with assms(2) cp first \<open>ra = Some e\<close> h rb cp2 ec hb(2) f(2) show ?thesis
          by (auto simp: performInitialMountWithErrorHandling_def)
      next
        case (Some child)
        obtain rd child2 wd where u: "unmountComponent True child wc = (rd, child2, wd)"
          by (cases "unmountComponent True child wc") auto
        have ed: "extends w wd" using ec unmount_extends(1) [OF u] by (rule extends_trans)
        show ?thesis
        proof (cases rd)
          case (Some e3)
          with assms(2) cp first \<open>ra = Some e\<close> h rb cp2 \<open>rca = Some child\<close> u ed hb(2) f(2)
          show ?thesis
            by (auto simp: performInitialMountWithErrorHandling_def)
        next
          case None
          let ?we = "transaction_rollback cp2 wd"
          have ee: "extends w ?we" using ed extends_rollback by (rule extends_trans)
          from assms(2) cp first \<open>ra = Some e\<close> h rb cp2 \<open>rca = Some child\<close> u None
          have second: "performInitialMount m fns thisb (Some child2) re ctx ?we =
              Some (r, this1, rc1, w1)"
            by (simp add: performInitialMountWithErrorHandling_def)
          note g = performInitialMount_effect [OF assms(1) second]
          have "nextMountID w \<le> nextMountID ?we" using ee by (simp add: extends_def)
          with g(3) have "r = None \<longrightarrow> (\<exists>child. rc1 = Some child \<and> ancestors_first child \<and>
              stamped_within (nextMountID w) (nextMountID w1) (mount_orders child))"
            using stamped_within_mono by blast
          with extends_trans [OF ee g(1)] g(2) hb(2) f(2) show ?thesis by simp
        qed
      qed
    qed
  qed
  then show "extends w w1" and "mountOrder this1 = mountOrder this"
    and "r = None \<Longrightarrow> \<exists>child. rc1 = Some child \<and> ancestors_first child \<and>
           stamped_within (nextMountID w) (nextMountID w1) (mount_orders child)"
    by simp_all
qed


lemma extends_after_stamp:
  assumes "extends (record_event (Stamped k) (w\<lparr>nextMountID := Suc k\<rparr>)) w1"
  shows "\<exists>ext. trace w1 = trace w @ Stamped k # ext \<and>
           stamped_within (Suc k) (nextMountID w1) (stamps ext)"
    and "Suc k \<le> nextMountID w1"
  using assms by (auto simp: extends_def record_event_def)

lemma mountComponent_effect:
  assumes "good_mounter m"
    and "mountComponent m R fns this rc ctx w = Some (r, this1, rc1, w1)"
  shows "mountOrder this1 = nextMountID w"
    and "\<exists>ext. trace w1 = trace w @ Stamped (nextMountID w) # ext \<and>
           stamped_within (Suc (nextMountID w)) (nextMountID w1) (stamps ext)"
    and "nextMountID w < nextMountID w1"
    and "r = None \<Longrightarrow> \<exists>child. rc1 = Some child \<and> ancestors_first child \<and>
           stamped_within (Suc (nextMountID w)) (nextMountID w1) (mount_orders child)"
proof -
  let ?k = "nextMountID w"
  let ?t0 = "this\<lparr>context' := ctx, mountOrder := ?k\<rparr>"
  let ?w = "record_event (Stamped ?k) (w\<lparr>nextMountID := Suc ?k\<rparr>)"
  have k: "nextMountID ?w = Suc ?k" by (simp add: record_event_def)
  have "mountOrder this1 = ?k \<and> extends ?w w1 \<and>
      (r = None \<longrightarrow> (\<exists>child. rc1 = Some child \<and> ancestors_first child \<and>
           stamped_within (Suc ?k) (nextMountID w1) (mount_orders child)))"
  proof (cases "element_component R (currentElement this)")
    case None
    then have "mountComponent m R fns this rc ctx w = Some (Some TypeError, ?t0, rc, ?w)"
      by (simp add: mountComponent_def Let_def)
    with assms(2) show ?thesis by (auto simp: extends_refl)
  next
    case (Some C)
    show ?thesis
    proof (cases "constructComponent C (element_props (currentElement this)) (processContext ctx)")
      case (Inl e)
      with Some have "mountComponent m R fns this rc ctx w = Some (Some e, ?t0, rc, ?w)"
        by (simp add: mountComponent_def Let_def)
      with assms(2) show ?thesis by (auto simp: extends_refl)
    next
      case (Inr x)
      obtain inst re kind where x: "x = (inst, re, kind)" by (cases x) auto
      define t2 where "t2 = ?t0\<lparr>compositeType := Some kind, instance' := Some inst,
          pendingStateQueue := None, pendingReplaceState := False, pendingForceUpdate := False\<rparr>"
      define p where "p = (if unstable_handleError (inst_methods inst) \<noteq> None
                then performInitialMountWithErrorHandling m fns t2 rc re ctx ?w
                else performInitialMount m fns t2 rc re ctx ?w)"
      have unfold: "mountComponent m R fns this rc ctx w =
          (case p of
             None \<Rightarrow> None
           | Some (Some e, this3, child, w3) \<Rightarrow> Some (Some e, this3, child, w3)
           | Some (None, this3, child, w3) \<Rightarrow>
               Some (None, this3, child,
                     if componentDidMount (inst_methods inst) \<noteq> None
                     then record_event (DidMountEnqueued (mountOrder this3))
                            (w3\<lparr>mountReady := mountReady w3 @ [mountOrder this3]\<rparr>)
                     else w3))"
        using Some Inr x unfolding p_def t2_def by (simp add: mountComponent_def Let_def)
      from assms(2) unfold obtain ra thisa rca wa where
        p: "p = Some (ra, thisa, rca, wa)"
        by (cases p) auto
      have t2: "mountOrder t2 = ?k" by (simp add: t2_def)
      have eff: "extends ?w wa \<and> mountOrder thisa = ?k \<and>
          (ra = None \<longrightarrow> (\<exists>child. rca = Some child \<and> ancestors_first child \<and>
             stamped_within (Suc ?k) (nextMountID wa) (mount_orders child)))"
      proof (cases "unstable_handleError (inst_methods inst) \<noteq> None")
        case True
        with p have "performInitialMountWithErrorHandling m fns t2 rc re ctx ?w =
            Some (ra, thisa, rca, wa)" by (simp add: p_def)
        from performInitialMountWithErrorHandling_effect [OF assms(1) this] t2 k
        show ?thesis by auto
      next
        case False
        with p have "performInitialMount m fns t2 rc re ctx ?w = Some (ra, thisa, rca, wa)"
          by (simp add: p_def)
        from performInitialMount_effect [OF assms(1) this] t2 k
        show ?thesis by auto
      qed
      show ?thesis
      proof (cases ra)
        case (Some e)
        with assms(2) unfold p
        have "r = Some e" "this1 = thisa" "rc1 = rca" "w1 = wa"
          by simp_all
        with eff show ?thesis by simp
      next
        case None
        let ?wd = "record_event (DidMountEnqueued (mountOrder thisa))
                     (wa\<lparr>mountReady := mountReady wa @ [mountOrder thisa]\<rparr>)"
        have "extends ?w (wa\<lparr>mountReady := mountReady wa @ [mountOrder thisa]\<rparr>)"
          using eff by (auto intro: extends_same)
        then have ed: "extends ?w ?wd"
          by (rule extends_record_event) simp
        have same: "nextMountID ?wd = nextMountID wa" by (simp add: record_event_def)
        from assms(2) unfold p None
        have res: "r = None" "this1 = thisa" "rc1 = rca" "w1 = wa \<or> w1 = ?wd"
          by (auto split: if_splits)
        from res(4) eff ed same have "extends ?w w1" "nextMountID w1 = nextMountID wa"
          by auto
        with eff res None show ?thesis by simp
      qed
    qed
  qed
  then show "mountOrder this1 = nextMountID w"
    and "\<exists>ext. trace w1 = trace w @ Stamped (nextMountID w) # ext \<and>
           stamped_within (Suc (nextMountID w)) (nextMountID w1) (stamps ext)"
    and "nextMountID w < nextMountID w1"
    and "r = None \<Longrightarrow> \<exists>child. rc1 = Some child \<and> ancestors_first child \<and>
           stamped_within (Suc (nextMountID w)) (nextMountID w1) (mount_orders child)"
    using extends_after_stamp [of ?k w w1] by auto
qed

lemma mountChildren_effect:
  assumes "good_mounter m"
    and "mountChildren m cs ctx w = Some (r, cs1, w1)"
  shows "extends w w1"
    and "r = None \<Longrightarrow> ancestors_first_list cs1 \<and>
           stamped_within (nextMountID w) (nextMountID w1) (mount_orders_list cs1)"
proof -
  have "extends w w1 \<and> (r = None \<longrightarrow> ancestors_first_list cs1 \<and>
           stamped_within (nextMountID w) (nextMountID w1) (mount_orders_list cs1))"
    using assms(2)
  proof (induction cs arbitrary: w r cs1 w1)
    case Nil
    then show ?case by (auto simp: extends_refl stamped_within_def)
  next
    case (Cons c cs)
    from Cons.prems obtain ra ca wa where a: "m c ctx w = Some (ra, ca, wa)"
      by (auto split: option.splits)
    from assms(1) a have ga: "extends w wa"
      "ra = None \<longrightarrow> ancestors_first ca \<and>
         stamped_within (nextMountID w) (nextMountID wa) (mount_orders ca)"
      unfolding good_mounter_def by blast+
    show ?case
    proof (cases ra)
      case (Some e)
      with Cons.prems a ga show ?thesis by auto
    next
      case None
      from Cons.prems a None obtain csb where
        b: "mountChildren m cs ctx wa = Some (r, csb, w1)" and res: "cs1 = ca # csb"
        by (auto split: option.splits)
      from Cons.IH [OF b] have gb: "extends wa w1"
        "r = None \<longrightarrow> ancestors_first_list csb \<and>
           stamped_within (nextMountID wa) (nextMountID w1) (mount_orders_list csb)"
        by simp_all
      have le: "nextMountID w \<le> nextMountID wa" "nextMountID wa \<le> nextMountID w1"
        using ga(1) gb(1) by (simp_all add: extends_def)
      have "r = None \<longrightarrow> stamped_within (nextMountID w) (nextMountID w1) (mount_orders ca) \<and>
          stamped_within (nextMountID w) (nextMountID w1) (mount_orders_list csb)"
        using ga(2) gb(2) None le stamped_within_mono by (metis le_refl)
      with extends_trans [OF ga(1) gb(1)] ga(2) gb(2) None res show ?thesis
        by (simp add: stamped_within_append)
    qed
  qed
  then show "extends w w1"
    and "r = None \<Longrightarrow> ancestors_first_list cs1 \<and>
           stamped_within (nextMountID w) (nextMountID w1) (mount_orders_list cs1)"
    by simp_all
qed

lemma good_mounter_ReactReconciler:
  "good_mounter (\<lambda>t c v. ReactReconciler_mountComponent n R fns t c v)"
proof (induction n)
  case 0
  show ?case by (simp add: good_mounter_def)
next
  case (Suc n)
  let ?m = "\<lambda>t c v. ReactReconciler_mountComponent n R fns t c v"
  show ?case
    unfolding good_mounter_def
  proof (intro allI impI)
    fix t c w r t1 w1
    assume a: "ReactReconciler_mountComponent (Suc n) R fns t c w = Some (r, t1, w1)"
    show "extends w w1 \<and>
       (r = None \<longrightarrow> ancestors_first t1 \<and>
          stamped_within (nextMountID w) (nextMountID w1) (mount_orders t1))"
    proof (cases t)
      case EmptyInstance
      with a show ?thesis by (auto simp: extends_refl stamped_within_def)
    next
      case (HostInstance el cs)
      with a obtain cs1 where
        b: "mountChildren ?m (map instantiateChild (element_children el)) c w = Some (r, cs1, w1)"
        and res: "t1 = HostInstance el cs1"
        by (auto split: option.splits)
      from mountChildren_effect [OF Suc b] res show ?thesis by simp
    next
      case (CompositeInstance this rc)
      with a obtain this1 rc1 where
        b: "mountComponent ?m R fns this rc c w = Some (r, this1, rc1, w1)"
        and res: "t1 = CompositeInstance this1 rc1"
        by (auto split: option.splits)
      note e = mountComponent_effect [OF Suc b]
      from e(2) obtain ext where ext: "trace w1 = trace w @ Stamped (nextMountID w) # ext"
        "stamped_within (Suc (nextMountID w)) (nextMountID w1) (stamps ext)"
        by blast
      have "stamped_within (nextMountID w) (nextMountID w1) (stamps (Stamped (nextMountID w) # ext))"
        using stamped_within_mono [OF ext(2), of "nextMountID w" "nextMountID w1"] e(3)
        by (simp add: stamped_within_def)
      with ext(1) e(3) have ext: "extends w w1"
        unfolding extends_def by (intro conjI exI [of _ "Stamped (nextMountID w) # ext"]) simp_all
      have "r = None \<longrightarrow> ancestors_first t1 \<and>
          stamped_within (nextMountID w) (nextMountID w1) (mount_orders t1)"
      proof
        assume "r = None"
        from e(4) [OF this] obtain child where ch: "rc1 = Some child" "ancestors_first child"
          "stamped_within (Suc (nextMountID w)) (nextMountID w1) (mount_orders child)"
          by blast
        then show "ancestors_first t1 \<and>
          stamped_within (nextMountID w) (nextMountID w1) (mount_orders t1)"
          using res e(1) e(3) by (auto simp: stamped_within_def list_all_iff)
      qed
      with ext show ?thesis by simp
    qed
  qed
qed

section \<open>Unmounting calls the hook once\<close>

lemma will_unmounts_append: "will_unmounts (xs @ ys) = will_unmounts xs + will_unmounts ys"
  by (induction xs rule: will_unmounts.induct) simp_all

lemma run_hook_instance: "run_hook eff this = (r, this1) \<Longrightarrow> instance' this1 = instance' this"
  by (auto simp: run_hook_def enqueueSetState_def)

lemma callComponentWillUnmount_pending:
  assumes "callComponentWillUnmount safely this inst w = (r, this1, w1)"
    and "instance' this = Some inst"
  shows "\<exists>ext. trace w1 = trace w @ ext \<and>
           will_unmounts ext + (if awaits_unmount this1 then {#mountOrder this1#} else {#}) =
             (if awaits_unmount this then {#mountOrder this#} else {#})"
    and "mountOrder this1 = mountOrder this"
    and "instance' this1 \<noteq> None"
proof -
  show "\<exists>ext. trace w1 = trace w @ ext \<and>
           will_unmounts ext + (if awaits_unmount this1 then {#mountOrder this1#} else {#}) =
             (if awaits_unmount this then {#mountOrder this#} else {#})"
  proof (cases "awaits_unmount this")
    case False
    with assms have "this1 = this" "w1 = w"
      by (auto simp: callComponentWillUnmount_def awaits_unmount_def split: option.splits)
    with False show ?thesis by simp
  next
    case True
    with assms(2) obtain hook where h: "componentWillUnmount (inst_methods inst) = Some hook"
      "\<not> inst_calledComponentWillUnmount inst"
      by (auto simp: awaits_unmount_def)
    let ?t = "this\<lparr>instance' := Some (inst\<lparr>inst_calledComponentWillUnmount := True\<rparr>)\<rparr>"
    obtain r0 t0 where rh: "run_hook (hook (inst_props inst) (inst_state inst) (inst_context inst)) ?t = (r0, t0)"
      by (cases "run_hook (hook (inst_props inst) (inst_state inst) (inst_context inst)) ?t") auto
    from run_hook_instance [OF rh] run_hook_mountOrder [OF rh]
    have t0: "\<not> awaits_unmount t0" "mountOrder t0 = mountOrder this"
      by (simp_all add: awaits_unmount_def)
    from assms(1) h rh have "this1 = t0"
      and "trace w1 = trace w @ [WillUnmount (mountOrder this)]"
      by (auto simp: callComponentWillUnmount_def Let_def record_event_def
          invokeGuardedCallback_def split: if_splits option.splits)
    with t0 True show ?thesis by simp
  qed
  show "mountOrder this1 = mountOrder this"
    using assms
    by (auto simp: callComponentWillUnmount_def Let_def dest: run_hook_mountOrder
        split: option.splits if_splits prod.splits)
  show "instance' this1 \<noteq> None"
    using assms
    by (auto simp: callComponentWillUnmount_def Let_def dest: run_hook_instance
        split: option.splits if_splits prod.splits)
qed


lemma mset_sum_subD: "A + B \<subseteq># C \<Longrightarrow> A \<subseteq># (C :: 'a multiset)"
  using mset_subset_eq_add_left [of A B] by (rule subset_mset.order_trans)

lemma mset_sum_sub_mono:
  "A \<subseteq># C \<Longrightarrow> B \<subseteq># D \<Longrightarrow> A + B \<subseteq># C + (D :: 'a multiset)"
  by (rule subset_mset.add_mono)

lemma awaits_released: "\<not> awaits_unmount (released this)"
  by (simp add: awaits_unmount_def released_def)

lemma unmount_pending:
  "unmountComponent safely t w = (r, t1, w1) \<Longrightarrow>
     \<exists>ext. trace w1 = trace w @ ext \<and> will_unmounts ext + pending_unmounts t1 \<subseteq># pending_unmounts t"
  "unmountChildren safely ts w = (r, ts1, w1) \<Longrightarrow>
     \<exists>ext. trace w1 = trace w @ ext \<and>
       will_unmounts ext + pending_unmounts_list ts1 \<subseteq># pending_unmounts_list ts"
proof (induction safely t w and safely ts w arbitrary: r t1 w1 and r ts1 w1
    rule: unmountComponent_unmountChildren.induct)
  case (1 safely w)
  then show ?case by simp
next
  case (2 safely element children w)
  obtain r0 cs0 w0 where u: "unmountChildren safely children w = (r0, cs0, w0)"
    by (cases "unmountChildren safely children w") auto
  from "2.IH" [OF u] obtain ext where ext: "trace w0 = trace w @ ext"
    "will_unmounts ext + pending_unmounts_list cs0 \<subseteq># pending_unmounts_list children"
    by blast
  show ?case
  proof (cases r0)
    case None
    with "2.prems" u have "w1 = w0" "t1 = HostInstance element []" by simp_all
    moreover have "will_unmounts ext \<subseteq># pending_unmounts_list children"
      using ext(2) by (rule mset_sum_subD)
    ultimately show ?thesis using ext(1) by auto
  next
    case (Some e)
    with "2.prems" u have "w1 = w0" "t1 = HostInstance element cs0" by simp_all
    with ext show ?thesis by auto
  qed
next
  case (3 safely this w)
  then show ?case by simp
next
  case (4 safely this child w)
  show ?case
  proof (cases "instance' this")
    case None
    with 4 show ?thesis by auto
  next
    case (Some inst)
    obtain r0 this0 w0 where c: "callComponentWillUnmount safely this inst w = (r0, this0, w0)"
      by (cases "callComponentWillUnmount safely this inst w") auto
    from callComponentWillUnmount_pending(1) [OF c Some] obtain ext0 where
      ext0: "trace w0 = trace w @ ext0"
        "will_unmounts ext0 + (if awaits_unmount this0 then {#mountOrder this0#} else {#}) =
           (if awaits_unmount this then {#mountOrder this#} else {#})"
      by blast
    show ?thesis
    proof (cases r0)
      case (Some e)
      with "4.prems" c \<open>instance' this = Some inst\<close>
      have "w1 = w0" "t1 = CompositeInstance this0 (Some child)" by simp_all
      with ext0 show ?thesis
        by (intro exI [of _ ext0]) (simp add: add.assoc [symmetric])
    next
      case None
      obtain r2 child2 w2 where u: "unmountComponent safely child w0 = (r2, child2, w2)"
        by (cases "unmountComponent safely child w0") auto
      from "4.IH" [OF \<open>instance' this = Some inst\<close> c [symmetric] _ _ u] None
      obtain ext1 where ext1: "trace w2 = trace w0 @ ext1"
        "will_unmounts ext1 + pending_unmounts child2 \<subseteq># pending_unmounts child"
        by auto
      have tr: "trace w2 = trace w @ (ext0 @ ext1)" using ext0(1) ext1(1) by simp
      have own: "will_unmounts ext0 \<subseteq># (if awaits_unmount this then {#mountOrder this#} else {#})"
        using mset_subset_eq_add_left [of "will_unmounts ext0"
            "if awaits_unmount this0 then {#mountOrder this0#} else {#}"] ext0(2) by simp
      show ?thesis
      proof (cases r2)
        case (Some e)
        with "4.prems" c \<open>instance' this = Some inst\<close> None u
        have res: "w1 = w2" "t1 = CompositeInstance this0 (Some child2)" by simp_all
        have "will_unmounts (ext0 @ ext1) + pending_unmounts t1 =
            (will_unmounts ext0 + (if awaits_unmount this0 then {#mountOrder this0#} else {#})) +
            (will_unmounts ext1 + pending_unmounts child2)"
          using res by (simp add: will_unmounts_append)
        also have "\<dots> \<subseteq># pending_unmounts (CompositeInstance this (Some child))"
          using ext0(2) ext1(2) by simp
        finally show ?thesis using tr res by blast
      next
        case None
        with "4.prems" c \<open>instance' this = Some inst\<close> \<open>r0 = None\<close> u
        have res: "w1 = w2" "t1 = CompositeInstance (released this0) None" by simp_all
        have "will_unmounts ext1 \<subseteq># pending_unmounts child"
          using ext1(2) by (rule mset_sum_subD)
        from mset_sum_sub_mono [OF own this]
        have "will_unmounts (ext0 @ ext1) \<subseteq># pending_unmounts (CompositeInstance this (Some child))"
          by (simp only: will_unmounts_append pending_unmounts.simps)
        with tr res show ?thesis by (auto simp: awaits_released)
      qed
    qed
  qed
next
  case (5 safely w)
  then show ?case by simp
next
  case (6 safely child children w)
  obtain r0 c0 w0 where u: "unmountComponent safely child w = (r0, c0, w0)"
    by (cases "unmountComponent safely child w") auto
  from "6.IH"(1) [OF u] obtain ext0 where ext0: "trace w0 = trace w @ ext0"
    "will_unmounts ext0 + pending_unmounts c0 \<subseteq># pending_unmounts child"
    by blast
  show ?case
  proof (cases r0)
    case (Some e)
    with "6.prems" u have "w1 = w0" "ts1 = c0 # children" by simp_all
    with ext0 show ?thesis
      by (intro exI [of _ ext0]) (simp add: add.assoc [symmetric])
  next
    case None
    obtain r2 cs2 w2 where v: "unmountChildren safely children w0 = (r2, cs2, w2)"
      by (cases "unmountChildren safely children w0") auto
    from "6.IH"(2) [OF u [symmetric] _ _ v] None
    obtain ext1 where ext1: "trace w2 = trace w0 @ ext1"
      "will_unmounts ext1 + pending_unmounts_list cs2 \<subseteq># pending_unmounts_list children"
      by auto
    from "6.prems" u None v have res: "w1 = w2" "ts1 = c0 # cs2" by simp_all
    have "will_unmounts (ext0 @ ext1) + pending_unmounts_list ts1 =
        (will_unmounts ext0 + pending_unmounts c0) +
        (will_unmounts ext1 + pending_unmounts_list cs2)"
      using res by (simp add: will_unmounts_append)
    also have "\<dots> \<subseteq># pending_unmounts_list (child # children)"
      using mset_sum_sub_mono [OF ext0(2) ext1(2)] by simp
    finally show ?thesis using ext0(1) ext1(1) res by auto
  qed
qed


lemma unmount_all_pending:
  "unmount_all calls t w = (t1, w1) \<Longrightarrow>
     \<exists>ext. trace w1 = trace w @ ext \<and> will_unmounts ext + pending_unmounts t1 \<subseteq># pending_unmounts t"
proof (induction calls arbitrary: t w)
  case Nil
  then show ?case by simp
next
  case (Cons safely calls)
  obtain r0 t0 w0 where u: "unmountComponent safely t w = (r0, t0, w0)"
    by (cases "unmountComponent safely t w") auto
  from unmount_pending(1) [OF u] obtain ext0 where ext0: "trace w0 = trace w @ ext0"
    "will_unmounts ext0 + pending_unmounts t0 \<subseteq># pending_unmounts t"
    by blast
  from Cons.prems u have "unmount_all calls t0 w0 = (t1, w1)" by simp
  from Cons.IH [OF this] obtain ext1 where ext1: "trace w1 = trace w0 @ ext1"
    "will_unmounts ext1 + pending_unmounts t1 \<subseteq># pending_unmounts t0"
    by blast
  have "will_unmounts (ext0 @ ext1) + pending_unmounts t1 =
      will_unmounts ext0 + (will_unmounts ext1 + pending_unmounts t1)"
    by (simp add: will_unmounts_append)
  also have "\<dots> \<subseteq># will_unmounts ext0 + pending_unmounts t0"
    using ext1(2) by simp
  also note ext0(2)
  finally show ?case using ext0(1) ext1(1) by auto
qed

lemma pending_unmounts_orders:
  "pending_unmounts t \<subseteq># mset (mount_orders t)"
  "pending_unmounts_list ts \<subseteq># mset (mount_orders_list ts)"
proof (induction t and ts rule: pending_unmounts_pending_unmounts_list.induct)
  case (4 this child)
  have "(if awaits_unmount this then {#mountOrder this#} else {#}) \<subseteq># {#mountOrder this#}"
    by simp
  from mset_sum_sub_mono [OF this 4] show ?case by simp
next
  case (6 child children)
  from mset_sum_sub_mono [OF 6] show ?case by simp
qed simp_all

lemma unmount_all_once:
  assumes "distinct (mount_orders t)" and "unmount_all calls t w = (t1, w1)"
  shows "count (will_unmounts (trace w1)) k \<le> count (will_unmounts (trace w)) k + 1"
proof -
  from unmount_all_pending [OF assms(2)] obtain ext where ext: "trace w1 = trace w @ ext"
    "will_unmounts ext + pending_unmounts t1 \<subseteq># pending_unmounts t"
    by blast
  have "will_unmounts ext \<subseteq># mset (mount_orders t)"
    using mset_sum_subD [OF ext(2)] pending_unmounts_orders(1) [of t]
    by (rule subset_mset.order_trans)
  then have "count (will_unmounts ext) k \<le> count (mset (mount_orders t)) k"
    by (rule mset_subset_eq_count)
  also have "\<dots> \<le> 1"
    using assms(1) by (simp add: distinct_count_atmost_1)
  finally show ?thesis using ext(1) by (simp add: will_unmounts_append)
qed

lemma callComponentWillUnmount_safely:
  "fst (callComponentWillUnmount True this inst w) = None"
  by (simp add: callComponentWillUnmount_def Let_def split: option.splits prod.splits)

lemma unmount_safely:
  "instances_present t \<Longrightarrow> fst (unmountComponent True t w) = None"
  "instances_present_list ts \<Longrightarrow> fst (unmountChildren True ts w) = None"
proof (induction t and ts arbitrary: w and w rule: instances_present_instances_present_list.induct)
  case (4 this child)
  then obtain inst where i: "instance' this = Some inst" by auto
  obtain r0 this0 w0 where c: "callComponentWillUnmount True this inst w = (r0, this0, w0)"
    by (cases "callComponentWillUnmount True this inst w") auto
  with callComponentWillUnmount_safely [of this inst w] have r0: "r0 = None" by simp
  from 4 have "fst (unmountComponent True child w0) = None" by simp
  with i c r0 show ?case by (cases "unmountComponent True child w0") auto
next
  case (2 element children)
  then have "fst (unmountChildren True children w) = None" by simp
  then show ?case by (cases "unmountChildren True children w") auto
next
  case (6 child children)
  then have a: "fst (unmountComponent True child w) = None" by simp
  obtain c0 w0 where u: "unmountComponent True child w = (None, c0, w0)"
    using a by (cases "unmountComponent True child w") auto
  from 6 have "fst (unmountChildren True children w0) = None" by simp
  with u show ?case by (cases "unmountChildren True children w0") auto
qed simp_all


lemma callComponentWillUnmount_call:
  assumes "instance' this = Some inst"
    and "componentWillUnmount (inst_methods inst) = Some hook"
    and "\<not> inst_calledComponentWillUnmount inst"
  shows "\<exists>this1 w1.
     callComponentWillUnmount safely this inst w =
       (if safely then None
        else raised (hook (inst_props inst) (inst_state inst) (inst_context inst)), this1, w1) \<and>
     trace w1 = trace w @ [WillUnmount (mountOrder this)] \<and>
     caughtError w1 =
       (if safely \<and> caughtError w = None
        then raised (hook (inst_props inst) (inst_state inst) (inst_context inst))
        else caughtError w) \<and>
     instance' this1 = Some (inst\<lparr>inst_calledComponentWillUnmount := True\<rparr>)"
  using assms
  by (auto simp: callComponentWillUnmount_def Let_def run_hook_def record_event_def
      invokeGuardedCallback_def enqueueSetState_def split: option.splits)

lemma callComponentWillUnmount_skip:
  assumes "componentWillUnmount (inst_methods inst) = None \<or> inst_calledComponentWillUnmount inst"
  shows "callComponentWillUnmount safely this inst w = (None, this, w)"
  using assms by (auto simp: callComponentWillUnmount_def split: option.splits)

lemma callComponentWillUnmount_done:
  assumes "callComponentWillUnmount safely this inst w = (r, this1, w1)"
    and "instance' this = Some inst"
  shows "\<not> awaits_unmount this1"
proof (cases "awaits_unmount this")
  case False
  with assms have "this1 = this"
    by (auto simp: callComponentWillUnmount_def awaits_unmount_def split: option.splits)
  with False show ?thesis by simp
next
  case True
  with assms(2) obtain hook where h: "componentWillUnmount (inst_methods inst) = Some hook"
    "\<not> inst_calledComponentWillUnmount inst"
    by (auto simp: awaits_unmount_def)
  from callComponentWillUnmount_call [OF assms(2) h, of safely w] assms(1)
  show ?thesis by (auto simp: awaits_unmount_def)
qed

lemma unmount_exact:
  "fully_mounted t \<Longrightarrow> unmountComponent safely t w = (None, t1, w1) \<Longrightarrow>
     \<exists>ext. trace w1 = trace w @ ext \<and> will_unmounts ext = pending_unmounts t \<and>
       pending_unmounts t1 = {#}"
  "fully_mounted_list ts \<Longrightarrow> unmountChildren safely ts w = (None, ts1, w1) \<Longrightarrow>
     \<exists>ext. trace w1 = trace w @ ext \<and> will_unmounts ext = pending_unmounts_list ts \<and>
       pending_unmounts_list ts1 = {#}"
proof (induction safely t w and safely ts w arbitrary: t1 w1 and ts1 w1
    rule: unmountComponent_unmountChildren.induct)
  case (1 safely w)
  then show ?case by simp
next
  case (2 safely element children w)
  obtain r0 cs0 w0 where u: "unmountChildren safely children w = (r0, cs0, w0)"
    by (cases "unmountChildren safely children w") auto
  with "2.prems"(2) have r0: "r0 = None" and res: "w1 = w0" "t1 = HostInstance element []"
    by (cases r0; simp)+
  from "2.IH" [of cs0 w0] "2.prems"(1) u r0 res show ?case by auto
next
  case (3 safely this w)
  then show ?case by simp
next
  case (4 safely this child w)
  from "4.prems"(1) obtain inst where i: "instance' this = Some inst" and fc: "fully_mounted child"
    by auto
  obtain r0 this0 w0 where c: "callComponentWillUnmount safely this inst w = (r0, this0, w0)"
    by (cases "callComponentWillUnmount safely this inst w") auto
  obtain r2 child2 w2 where u: "unmountComponent safely child w0 = (r2, child2, w2)"
    by (cases "unmountComponent safely child w0") auto
  from "4.prems"(2) i c have r0: "r0 = None" by (cases r0) simp_all
  from "4.prems"(2) i c r0 u have r2: "r2 = None" by (cases r2) simp_all
  from "4.prems"(2) i c r0 u r2 have res: "w1 = w2" "t1 = CompositeInstance (released this0) None"
    by simp_all
  from callComponentWillUnmount_pending(1) [OF c i] callComponentWillUnmount_done [OF c i]
  obtain ext0 where ext0: "trace w0 = trace w @ ext0"
    "will_unmounts ext0 = (if awaits_unmount this then {#mountOrder this#} else {#})"
    by auto
  from "4.IH" [OF i c [symmetric] _ _ fc, of this0 w0 child2 w2] r0 u r2
  obtain ext1 where ext1: "trace w2 = trace w0 @ ext1" "will_unmounts ext1 = pending_unmounts child"
    by auto
  have "trace w1 = trace w @ (ext0 @ ext1)" using ext0(1) ext1(1) res by simp
  moreover have "will_unmounts (ext0 @ ext1) = pending_unmounts (CompositeInstance this (Some child))"
    using ext0(2) ext1(2) by (simp add: will_unmounts_append)
  moreover have "pending_unmounts t1 = {#}" using res by (simp add: awaits_released)
  ultimately show ?case by blast
next
  case (5 safely w)
  then show ?case by simp
next
  case (6 safely child children w)
  obtain r0 c0 w0 where u: "unmountComponent safely child w = (r0, c0, w0)"
    by (cases "unmountComponent safely child w") auto
  obtain r2 cs2 w2 where v: "unmountChildren safely children w0 = (r2, cs2, w2)"
    by (cases "unmountChildren safely children w0") auto
  from "6.prems"(2) u have r0: "r0 = None" by (cases r0) simp_all
  from "6.prems"(2) u r0 v have r2: "r2 = None" and res: "w1 = w2" "ts1 = c0 # cs2" by simp_all
  from "6.IH"(1) [of c0 w0] "6.prems"(1) u r0
  obtain ext0 where ext0: "trace w0 = trace w @ ext0" "will_unmounts ext0 = pending_unmounts child"
    "pending_unmounts c0 = {#}"
    by auto
  from "6.IH"(2) [OF u [symmetric] _ _, of c0 w0 cs2 w2] "6.prems"(1) r0 v r2
  obtain ext1 where ext1: "trace w2 = trace w0 @ ext1"
    "will_unmounts ext1 = pending_unmounts_list children" "pending_unmounts_list cs2 = {#}"
    by auto
  have "trace w1 = trace w @ (ext0 @ ext1)" using ext0(1) ext1(1) res by simp
  moreover have "will_unmounts (ext0 @ ext1) = pending_unmounts_list (child # children)"
    using ext0(2) ext1(2) by (simp add: will_unmounts_append)
  moreover have "pending_unmounts_list ts1 = {#}" using res ext0(3) ext1(3) by simp
  ultimately show ?case by blast
qed


lemma fully_mounted_present:
  "fully_mounted t \<Longrightarrow> instances_present t"
  "fully_mounted_list ts \<Longrightarrow> instances_present_list ts"
  by (induction t and ts rule: fully_mounted_fully_mounted_list.induct) simp_all

lemma unmount_safely_exact:
  assumes "fully_mounted t"
  shows "\<exists>t2 w2 ext. unmountComponent True t w = (None, t2, w2) \<and> trace w2 = trace w @ ext \<and>
           will_unmounts ext = pending_unmounts t \<and> pending_unmounts t2 = {#}"
proof -
  from unmount_safely(1) [OF fully_mounted_present(1) [OF assms], of w]
  obtain t2 w2 where u: "unmountComponent True t w = (None, t2, w2)"
    by (cases "unmountComponent True t w") auto
  from unmount_exact(1) [OF assms u] u show ?thesis by blast
qed

lemma unmountComponent_sequence:
  assumes "instance' this = Some inst"
    and "unmountComponent safely (CompositeInstance this (Some child)) w = (None, t2, w2)"
  shows "\<exists>this0 w0 child1.
      callComponentWillUnmount safely this inst w = (None, this0, w0) \<and>
      unmountComponent safely child w0 = (None, child1, w2) \<and>
      t2 = CompositeInstance (released this0) None"
proof -
  obtain r0 this0 w0 where c: "callComponentWillUnmount safely this inst w = (r0, this0, w0)"
    by (cases "callComponentWillUnmount safely this inst w") auto
  obtain r2 child2 w3 where u: "unmountComponent safely child w0 = (r2, child2, w3)"
    by (cases "unmountComponent safely child w0") auto
  from assms c have r0: "r0 = None" by (cases r0) simp_all
  from assms c r0 u have r2: "r2 = None" by (cases r2) simp_all
  from assms c r0 u r2 show ?thesis by simp
qed

lemma noisy_mounted:
  "map_option (\<lambda>(r, t, w). (r, mount_orders t, instances_present t, trace w)) (mount_root ''Noisy'') =
   Some (None, [1, 2], True, [Stamped 1, Rendered 1, ChildStored 1, Stamped 2, Rendered 2, ChildStored 2])"
  by code_simp


lemma noisy_unmounted:
  "trace (snd (unmount_all [False, False, True] (mounted_tree ''Noisy'') (mounted_world ''Noisy''))) =
     [Stamped 1, Rendered 1, ChildStored 1, Stamped 2, Rendered 2, ChildStored 2,
      WillUnmount 1, WillUnmount 2]"
  by code_simp

lemma noisy_this_fields:
  "instance' noisy_this = Some noisy_inst"
  "componentWillUnmount (inst_methods noisy_inst) = Some throwing_hook"
  "\<not> inst_calledComponentWillUnmount noisy_inst"
  "raised (throwing_hook (inst_props noisy_inst) (inst_state noisy_inst) (inst_context noisy_inst)) = Some boom"
  "mountOrder noisy_this = 7"
  by (simp_all add: noisy_this_def noisy_inst_def counter_inst_def throwing_hook_def)

lemma quiet_this_fields:
  "instance' quiet_this = Some quiet_inst"
  "componentWillUnmount (inst_methods quiet_inst) = Some returning_hook"
  "\<not> inst_calledComponentWillUnmount quiet_inst"
  "raised (returning_hook (inst_props quiet_inst) (inst_state quiet_inst) (inst_context quiet_inst)) = None"
  "mountOrder quiet_this = 8"
  by (simp_all add: quiet_this_def quiet_inst_def counter_inst_def returning_hook_def
      no_effect_def)

lemma noisy_pending:
  "fully_mounted (mounted_tree ''Noisy'')"
  "pending_unmounts (mounted_tree ''Noisy'') = mset [1, 2]"
  by code_simp+

text \<open>
  C9. Over any sequence of unmount calls on a tree whose composite instances have distinct
  mount orders, the hook of each instance is called at most once. A safe unmount of a tree
  never throws, whatever its hooks do, so the unmount of the siblings and ancestors goes on.
  When the hook of an instance throws, the direct call (\<open>safely = False\<close>) propagates the error
  at once, with the child still mounted, and the guarded call (\<open>safely = True\<close>) returns and
  hands the error to the error slot. Once the hook step has returned, the rendered child is
  unmounted with the same flag, and the instance is released when that returns.

  A hook that is present and was not called on the instance is called, whether it returns or
  throws: the call is recorded once, the flag of the instance is set, the direct call gives
  back what the hook threw and the guarded call gives back nothing and keeps the first error
  in the error slot. A hook that is absent or was called before is not called. An unmount of a
  mounted tree that returns without error has called, once each, exactly the hooks that were
  due in the tree, the instance's and those below it; a safe unmount of a mounted tree always
  does so. Such an unmount of a composite instance is the hook step followed by the unmount
  of the rendered child, with the same flag, from the state the hook step left.
\<close>

theorem unmountComponent_willUnmount:
  "(distinct (mount_orders t) \<and> unmount_all calls t w = (t1, w1) \<longrightarrow>
      count (will_unmounts (trace w1)) k \<le> count (will_unmounts (trace w)) k + 1)
   \<and> (instances_present t \<longrightarrow> fst (unmountComponent True t w) = None)
   \<and> (instance' this = Some inst \<and> componentWillUnmount (inst_methods inst) = Some hook \<and>
       \<not> inst_calledComponentWillUnmount inst \<and>
       raised (hook (inst_props inst) (inst_state inst) (inst_context inst)) = Some e \<longrightarrow>
       (\<exists>this1. unmountComponent False (CompositeInstance this (Some child)) w =
          (Some e, CompositeInstance this1 (Some child),
           record_event (WillUnmount (mountOrder this)) w)) \<and>
       (\<exists>this1. callComponentWillUnmount True this inst w =
          (None, this1,
           invokeGuardedCallback (Some e) (record_event (WillUnmount (mountOrder this)) w))))
   \<and> (instance' this = Some inst \<and>
       callComponentWillUnmount safely this inst w = (None, this0, w0) \<longrightarrow>
       unmountComponent safely (CompositeInstance this (Some child)) w =
         (case unmountComponent safely child w0 of
            (Some e, child1, w2) \<Rightarrow> (Some e, CompositeInstance this0 (Some child1), w2)
          | (None, child1, w2) \<Rightarrow> (None, CompositeInstance (released this0) None, w2)))
   \<and> (instance' this = Some inst \<and> componentWillUnmount (inst_methods inst) = Some hook \<and>
       \<not> inst_calledComponentWillUnmount inst \<longrightarrow>
       (\<exists>this1 w1.
          callComponentWillUnmount safely this inst w =
            (if safely then None
             else raised (hook (inst_props inst) (inst_state inst) (inst_context inst)),
             this1, w1) \<and>
          trace w1 = trace w @ [WillUnmount (mountOrder this)] \<and>
          caughtError w1 =
            (if safely \<and> caughtError w = None
             then raised (hook (inst_props inst) (inst_state inst) (inst_context inst))
             else caughtError w) \<and>
          instance' this1 = Some (inst\<lparr>inst_calledComponentWillUnmount := True\<rparr>)))
   \<and> (componentWillUnmount (inst_methods inst) = None \<or> inst_calledComponentWillUnmount inst \<longrightarrow>
       callComponentWillUnmount safely this inst w = (None, this, w))
   \<and> (fully_mounted t \<and> unmountComponent safely t w = (None, t2, w2) \<longrightarrow>
       (\<exists>ext. trace w2 = trace w @ ext \<and> will_unmounts ext = pending_unmounts t \<and>
          pending_unmounts t2 = {#}))
   \<and> (fully_mounted t \<longrightarrow>
       (\<exists>t2 w2 ext. unmountComponent True t w = (None, t2, w2) \<and> trace w2 = trace w @ ext \<and>
          will_unmounts ext = pending_unmounts t \<and> pending_unmounts t2 = {#}))
   \<and> (instance' this = Some inst \<and>
       unmountComponent safely (CompositeInstance this (Some child)) w = (None, t2, w2) \<longrightarrow>
       (\<exists>this0 w0 child1.
          callComponentWillUnmount safely this inst w = (None, this0, w0) \<and>
          unmountComponent safely child w0 = (None, child1, w2) \<and>
          t2 = CompositeInstance (released this0) None))"
proof (intro conjI impI)
  assume "distinct (mount_orders t) \<and> unmount_all calls t w = (t1, w1)"
  then show "count (will_unmounts (trace w1)) k \<le> count (will_unmounts (trace w)) k + 1"
    using unmount_all_once by blast
next
  assume "instances_present t"
  then show "fst (unmountComponent True t w) = None" by (rule unmount_safely(1))
next
  assume h: "instance' this = Some inst \<and> componentWillUnmount (inst_methods inst) = Some hook \<and>
       \<not> inst_calledComponentWillUnmount inst \<and>
       raised (hook (inst_props inst) (inst_state inst) (inst_context inst)) = Some e"
  then show "\<exists>this1. unmountComponent False (CompositeInstance this (Some child)) w =
          (Some e, CompositeInstance this1 (Some child),
           record_event (WillUnmount (mountOrder this)) w)"
    by (simp add: callComponentWillUnmount_def Let_def run_hook_def)
  from h show "\<exists>this1. callComponentWillUnmount True this inst w =
          (None, this1,
           invokeGuardedCallback (Some e) (record_event (WillUnmount (mountOrder this)) w))"
    by (simp add: callComponentWillUnmount_def Let_def run_hook_def)
next
  assume "instance' this = Some inst \<and>
       callComponentWillUnmount safely this inst w = (None, this0, w0)"
  then show "unmountComponent safely (CompositeInstance this (Some child)) w =
         (case unmountComponent safely child w0 of
            (Some e, child1, w2) \<Rightarrow> (Some e, CompositeInstance this0 (Some child1), w2)
          | (None, child1, w2) \<Rightarrow> (None, CompositeInstance (released this0) None, w2))"
    by simp
next
  assume "instance' this = Some inst \<and> componentWillUnmount (inst_methods inst) = Some hook \<and>
       \<not> inst_calledComponentWillUnmount inst"
  then show "\<exists>this1 w1.
          callComponentWillUnmount safely this inst w =
            (if safely then None
             else raised (hook (inst_props inst) (inst_state inst) (inst_context inst)),
             this1, w1) \<and>
          trace w1 = trace w @ [WillUnmount (mountOrder this)] \<and>
          caughtError w1 =
            (if safely \<and> caughtError w = None
             then raised (hook (inst_props inst) (inst_state inst) (inst_context inst))
             else caughtError w) \<and>
          instance' this1 = Some (inst\<lparr>inst_calledComponentWillUnmount := True\<rparr>)"
    using callComponentWillUnmount_call [of this inst hook safely w] by blast
next
  assume "componentWillUnmount (inst_methods inst) = None \<or> inst_calledComponentWillUnmount inst"
  then show "callComponentWillUnmount safely this inst w = (None, this, w)"
    by (rule callComponentWillUnmount_skip)
next
  assume "fully_mounted t \<and> unmountComponent safely t w = (None, t2, w2)"
  then show "\<exists>ext. trace w2 = trace w @ ext \<and> will_unmounts ext = pending_unmounts t \<and>
          pending_unmounts t2 = {#}"
    using unmount_exact(1) by blast
next
  assume "fully_mounted t"
  then show "\<exists>t2 w2 ext. unmountComponent True t w = (None, t2, w2) \<and> trace w2 = trace w @ ext \<and>
          will_unmounts ext = pending_unmounts t \<and> pending_unmounts t2 = {#}"
    by (rule unmount_safely_exact)
next
  assume "instance' this = Some inst \<and>
       unmountComponent safely (CompositeInstance this (Some child)) w = (None, t2, w2)"
  then show "\<exists>this0 w0 child1.
          callComponentWillUnmount safely this inst w = (None, this0, w0) \<and>
          unmountComponent safely child w0 = (None, child1, w2) \<and>
          t2 = CompositeInstance (released this0) None"
    using unmountComponent_sequence by blast
qed

theorem unmountComponent_willUnmount_witness:
  "count (will_unmounts (trace (snd (unmount_all [False, False, True]
      (mounted_tree ''Noisy'') (mounted_world ''Noisy''))))) 1 \<le> 1
   \<and> fst (unmountComponent True (mounted_tree ''Noisy'') (mounted_world ''Noisy'')) = None
   \<and> fst (unmountComponent False (CompositeInstance noisy_this (Some EmptyInstance)) initial_world) =
       Some boom
   \<and> trace (snd (snd (unmountComponent False (CompositeInstance noisy_this (Some EmptyInstance))
         initial_world))) = [WillUnmount 7]
   \<and> fst (callComponentWillUnmount True noisy_this noisy_inst initial_world) = None
   \<and> caughtError (snd (snd (callComponentWillUnmount True noisy_this noisy_inst initial_world))) =
       Some boom
   \<and> fst (unmountComponent True (CompositeInstance noisy_this (Some EmptyInstance)) initial_world) =
       None
   \<and> fst (callComponentWillUnmount False quiet_this quiet_inst initial_world) = None
   \<and> trace (snd (snd (callComponentWillUnmount False quiet_this quiet_inst initial_world))) =
       [WillUnmount 8]
   \<and> will_unmounts (drop (length (trace (mounted_world ''Noisy'')))
         (trace (snd (snd (unmountComponent True (mounted_tree ''Noisy'')
            (mounted_world ''Noisy'')))))) = mset [1, 2]"
proof (intro conjI)
  have d: "distinct (mount_orders (mounted_tree ''Noisy''))" by code_simp
  have z: "count (will_unmounts (trace (mounted_world ''Noisy''))) 1 = 0" by code_simp
  have u: "unmount_all [False, False, True] (mounted_tree ''Noisy'') (mounted_world ''Noisy'') =
      (fst (unmount_all [False, False, True] (mounted_tree ''Noisy'') (mounted_world ''Noisy'')),
       snd (unmount_all [False, False, True] (mounted_tree ''Noisy'') (mounted_world ''Noisy'')))"
    by simp
  from unmountComponent_willUnmount [THEN conjunct1, rule_format, OF conjI, OF d u, of 1] z
  show "count (will_unmounts (trace (snd (unmount_all [False, False, True]
      (mounted_tree ''Noisy'') (mounted_world ''Noisy''))))) 1 \<le> 1"
    by simp
next
  have p: "instances_present (mounted_tree ''Noisy'')" by code_simp
  from unmountComponent_willUnmount [THEN conjunct2, THEN conjunct1, rule_format, OF p]
  show "fst (unmountComponent True (mounted_tree ''Noisy'') (mounted_world ''Noisy'')) = None" .
next
  note t = unmountComponent_willUnmount [THEN conjunct2, THEN conjunct2, THEN conjunct1,
      rule_format, of noisy_this noisy_inst throwing_hook boom EmptyInstance initial_world]
  from t show "fst (unmountComponent False (CompositeInstance noisy_this (Some EmptyInstance))
      initial_world) = Some boom"
    using noisy_this_fields by auto
  from t show "trace (snd (snd (unmountComponent False
      (CompositeInstance noisy_this (Some EmptyInstance)) initial_world))) = [WillUnmount 7]"
    using noisy_this_fields by (auto simp: record_event_def initial_world_def)
  from t show "fst (callComponentWillUnmount True noisy_this noisy_inst initial_world) = None"
    using noisy_this_fields by auto
  from t show "caughtError (snd (snd (callComponentWillUnmount True noisy_this noisy_inst
      initial_world))) = Some boom"
    using noisy_this_fields
    by (auto simp: record_event_def initial_world_def invokeGuardedCallback_def)
next
  obtain this0 w0 where
    c: "callComponentWillUnmount True noisy_this noisy_inst initial_world = (None, this0, w0)"
    using callComponentWillUnmount_safely [of noisy_this noisy_inst initial_world]
    by (cases "callComponentWillUnmount True noisy_this noisy_inst initial_world") auto
  from unmountComponent_willUnmount [THEN conjunct2, THEN conjunct2, THEN conjunct2,
      THEN conjunct1, rule_format, OF conjI, OF noisy_this_fields(1) c, of EmptyInstance]
  show "fst (unmountComponent True (CompositeInstance noisy_this (Some EmptyInstance))
      initial_world) = None"
    by simp
next
  note q = unmountComponent_willUnmount [THEN conjunct2, THEN conjunct2, THEN conjunct2,
      THEN conjunct2, THEN conjunct1, rule_format,
      OF conjI [OF quiet_this_fields(1) conjI [OF quiet_this_fields(2,3)]],
      of False initial_world]
  from q show "fst (callComponentWillUnmount False quiet_this quiet_inst initial_world) = None"
    using quiet_this_fields(4) by auto
  from q show "trace (snd (snd (callComponentWillUnmount False quiet_this quiet_inst
      initial_world))) = [WillUnmount 8]"
    using quiet_this_fields(5) by (auto simp: initial_world_def)
next
  from unmountComponent_willUnmount [THEN conjunct2, THEN conjunct2, THEN conjunct2,
      THEN conjunct2, THEN conjunct2, THEN conjunct2, THEN conjunct2, THEN conjunct1,
      rule_format, OF noisy_pending(1), of "mounted_world ''Noisy''"]
  show "will_unmounts (drop (length (trace (mounted_world ''Noisy'')))
         (trace (snd (snd (unmountComponent True (mounted_tree ''Noisy'')
            (mounted_world ''Noisy'')))))) = mset [1, 2]"
    using noisy_pending(2) by auto
qed

section \<open>The stamp comes first\<close>

text \<open>
  C7, as the code has it. The stamp is the first step of the mount of a composite instance,
  not the last: whatever the mount goes on to do, and whether it returns or throws, the
  instance has the value the counter had on entry, the counter has moved on, the first event
  of the mount is the stamp, and every stamp that follows in the same mount (those of the
  instances mounted below) is larger.
\<close>

theorem mountComponent_stamps_first:
  assumes "ReactReconciler_mountComponent n R fns (CompositeInstance this rc) ctx w =
             Some (r, t1, w1)"
  shows "\<exists>this1 rc1 ext.
           t1 = CompositeInstance this1 rc1 \<and> mountOrder this1 = nextMountID w \<and>
           nextMountID w < nextMountID w1 \<and>
           trace w1 = trace w @ Stamped (nextMountID w) # ext \<and>
           list_all (\<lambda>m. nextMountID w < m) (stamps ext)"
proof (cases n)
  case 0
  with assms show ?thesis by simp
next
  case (Suc k)
  let ?m = "\<lambda>t c v. ReactReconciler_mountComponent k R fns t c v"
  from assms Suc obtain this1 rc1 where
    b: "mountComponent ?m R fns this rc ctx w = Some (r, this1, rc1, w1)"
    and res: "t1 = CompositeInstance this1 rc1"
    by (auto split: option.splits)
  note e = mountComponent_effect [OF good_mounter_ReactReconciler b]
  from e(2) obtain ext where ext: "trace w1 = trace w @ Stamped (nextMountID w) # ext"
    "stamped_within (Suc (nextMountID w)) (nextMountID w1) (stamps ext)"
    by blast
  from ext(2) have "list_all (\<lambda>m. nextMountID w < m) (stamps ext)"
    by (auto simp: stamped_within_def list_all_iff)
  with res e(1) e(3) ext(1) show ?thesis by blast
qed

lemma outer_mounted:
  "map_option (\<lambda>(r, t, w). (r, mount_orders t, nextMountID w, trace w)) (mount_root ''Outer'') =
     Some (None, [1, 2], 3,
           [Stamped 1, Rendered 1, ChildStored 1, Stamped 2, Rendered 2, ChildStored 2,
            DidMountEnqueued 2, DidMountEnqueued 1])"
  by code_simp

theorem mountComponent_stamps_first_witness:
  "\<exists>this1 rc1 ext.
     mounted_tree ''Outer'' = CompositeInstance this1 rc1 \<and> mountOrder this1 = 1 \<and>
     1 < nextMountID (mounted_world ''Outer'') \<and>
     trace (mounted_world ''Outer'') = Stamped 1 # ext \<and>
     list_all (\<lambda>m. 1 < m) (stamps ext)"
proof -
  have "mount_root ''Outer'' \<noteq> None" using outer_mounted by auto
  then have m: "ReactReconciler_mountComponent 5 app increment
      (CompositeInstance (construct (CompositeElement 1 ''Outer'' (Obj 2 []))) None)
      emptyObject initial_world =
      Some (fst (the (mount_root ''Outer'')), mounted_tree ''Outer'', mounted_world ''Outer'')"
    by (auto simp: mount_root_def mounted_tree_def mounted_world_def)
  from mountComponent_stamps_first [OF m] show ?thesis
    by (simp add: initial_world_def)
qed

text \<open>
  The claim has the stamp after the render, the mount of the child and the enqueueing of
  \<^verbatim>\<open>componentDidMount\<close>. Mounting \<open>Outer\<close> shows the opposite: its stamp is the first event,
  before its render, before its child is stored and mounted (and stamped with 2), and before
  its \<^verbatim>\<open>componentDidMount\<close> is enqueued.
\<close>

theorem mountComponent_stamps_last_counterexample:
  "map_option (\<lambda>(r, t, w). (r, mount_orders t, trace w)) (mount_root ''Outer'') =
     Some (None, [1, 2],
           [Stamped 1, Rendered 1, ChildStored 1, Stamped 2, Rendered 2, ChildStored 2,
            DidMountEnqueued 2, DidMountEnqueued 1])
   \<and> happens_before (Stamped 1) (Rendered 1) (trace (mounted_world ''Outer''))
   \<and> happens_before (Stamped 1) (ChildStored 1) (trace (mounted_world ''Outer''))
   \<and> happens_before (Stamped 1) (DidMountEnqueued 1) (trace (mounted_world ''Outer''))
   \<and> \<not> happens_before (ChildStored 1) (Stamped 1) (trace (mounted_world ''Outer''))
   \<and> \<not> happens_before (DidMountEnqueued 1) (Stamped 1) (trace (mounted_world ''Outer''))"
  by code_simp

section \<open>The error boundary and the absent child\<close>

text \<open>
  C10. When the first attempt fails before a child instance is stored, in
  \<^verbatim>\<open>componentWillMount\<close> (\<open>HastyBoundary\<close>) or in the render (\<open>FragileBoundary\<close>), the
  recovery branch rolls back, calls the error hook and takes the second checkpoint, and then
  raises a TypeError of its own at \<^verbatim>\<open>this._renderedComponent.unmountComponent(true)\<close>:
  \<^verbatim>\<open>_renderedComponent\<close> is still \<^verbatim>\<open>null\<close>. The mount ends with that error.
\<close>

theorem errorHandling_absent_child:
  "map_option (\<lambda>(r, t, w). (r, trace w)) (mount_root ''HastyBoundary'') =
     Some (Some TypeError,
           [Stamped 1, Checkpoint 0, WillMount 1, Rollback 0, HandledError 1 boom, Checkpoint 0])
   \<and> map_option (\<lambda>(r, t, w). (r, trace w)) (mount_root ''FragileBoundary'') =
     Some (Some TypeError,
           [Stamped 1, Checkpoint 0, Rendered 1, Rollback 0, HandledError 1 boom, Checkpoint 0])"
  by code_simp

text \<open>
  C2. The mount of \<open>FragileBoundary\<close>, whose render throws on the first attempt: the
  transaction is rolled back, the error hook is called once and the state it queued is merged
  (the instance now has the error recorded, and a render with that state returns an element),
  the second checkpoint is taken, and there the mount ends with a TypeError; no second render
  takes place and no child is stored. Where the failure comes from the mount of the child
  (\<open>Boundary\<close>, whose child \<open>Bomb\<close> throws), the recovery runs as the claim has it: rollback,
  hook, checkpoint, unmount of the child, rollback, one retry, and the instance ends mounted
  with the output of the second render.
\<close>

theorem errorHandling_no_retry:
  "fst (the (mount_root ''FragileBoundary'')) = Some TypeError
   \<and> trace (mounted_world ''FragileBoundary'') =
       [Stamped 1, Checkpoint 0, Rendered 1, Rollback 0, HandledError 1 boom, Checkpoint 0]
   \<and> (case mounted_tree ''FragileBoundary'' of
         CompositeInstance this child \<Rightarrow>
           child = None \<and>
           map_option (\<lambda>inst. (has_error (inst_state inst),
                 render (inst_methods inst) (inst_props inst) (inst_state inst) (inst_context inst)))
             (instance' this) =
           Some (True, Inr (RElement (HostElement 10 ''span'' [])))
       | _ \<Rightarrow> False)
   \<and> map_option (\<lambda>(r, t, w). (r, mount_orders t, trace w)) (mount_root ''Boundary'') =
       Some (None, [1],
             [Stamped 1, Checkpoint 0, Rendered 1, ChildStored 1, Stamped 2, Rendered 2,
              Rollback 0, HandledError 1 boom, Checkpoint 0, Rollback 0, Rendered 1,
              ChildStored 1, DidMountEnqueued 1])"
  by code_simp

section \<open>The flush pass reconciles ancestors first\<close>

lemma reconciled_append: "reconciled (xs @ ys) = reconciled xs @ reconciled ys"
  by (induction xs rule: reconciled.induct) simp_all

lemma enqueueUpdate_effect:
  "\<exists>c. dirtyComponents (enqueueUpdate component s) = dirtyComponents s @ [c] \<and>
        component_mountOrder c = component_mountOrder component \<and>
        component_weight c = component_weight component"
  "events (enqueueUpdate component s) = events s"
  "asapCallbackQueue (enqueueUpdate component s) = asapCallbackQueue s"
  "asapEnqueued (enqueueUpdate component s) = asapEnqueued s"
  by (cases component; cases "component_updateBatchNumber component";
      simp add: enqueueUpdate_def)+

lemma run_requests_dirty:
  "\<exists>app new. dirtyComponents (run_requests rs s) = dirtyComponents s @ app \<and>
      events (run_requests rs s) = events s @ new \<and> reconciled new = []"
proof (induction rs arbitrary: s)
  case Nil
  show ?case by simp
next
  case (Cons r rs)
  show ?case
  proof (cases r)
    case (Asap t c)
    from Cons [of "asap t c s"] Asap show ?thesis
      by (auto simp: asap_def reconciled_append)
  next
    case (EnqueueUpdate d)
    from Cons [of "enqueueUpdate d s"] enqueueUpdate_effect(1,2) [of d s] EnqueueUpdate
    show ?thesis by auto
  qed
qed


lemma runBatchedUpdates_loop_order:
  assumes "i \<le> len" and "len \<le> length (dirtyComponents s)"
    and "runBatchedUpdates_loop len i cq s = (r, cq1, s1)"
  shows "r = None \<and>
     (\<exists>new. events s1 = events s @ new \<and>
        reconciled new = map component_mountOrder (drop i (take len (dirtyComponents s))))"
  using assms
proof (induction "len - i" arbitrary: i cq s)
  case 0
  then show ?case by (simp add: runBatchedUpdates_loop.simps [of len i])
next
  case (Suc k)
  then have lt: "i < len" "i < length (dirtyComponents s)" by simp_all
  obtain m b cbs body where c: "dirtyComponents s ! i = Component m b cbs body"
    by (cases "dirtyComponents s ! i") auto
  let ?s0 = "s\<lparr>dirtyComponents := (dirtyComponents s)[i := Component m b None body]\<rparr>"
  let ?s1 = "performUpdateIfNecessary (Component m b None body) ?s0"
  let ?cq = "cq @ (case cbs of None \<Rightarrow> [] | Some cbs \<Rightarrow> map (\<lambda>callback. (callback, m)) cbs)"
  from run_requests_dirty [of body "?s0\<lparr>events := events ?s0 @ [Reconciled m]\<rparr>"]
  obtain app new where p: "dirtyComponents ?s1 = (dirtyComponents s)[i := Component m b None body] @ app"
    "events ?s1 = events s @ Reconciled m # new" "reconciled new = []"
    by (auto simp: performUpdateIfNecessary_def)
  have step: "runBatchedUpdates_loop len i cq s = runBatchedUpdates_loop len (Suc i) ?cq ?s1"
    using lt c by (subst runBatchedUpdates_loop.simps) simp
  have len: "len \<le> length (dirtyComponents ?s1)" using Suc.prems(2) p(1) by simp
  have k: "k = len - Suc i" using Suc.hyps(2) by simp
  have le: "Suc i \<le> len" using lt by simp
  have rec: "runBatchedUpdates_loop len (Suc i) ?cq ?s1 = (r, cq1, s1)"
    using Suc.prems(3) step by simp
  from Suc.hyps(1) [OF k le len rec]
  obtain new2 where n2: "r = None" "events s1 = events ?s1 @ new2"
    "reconciled new2 = map component_mountOrder (drop (Suc i) (take len (dirtyComponents ?s1)))"
    by auto
  have "take len (dirtyComponents ?s1) = (take len (dirtyComponents s))[i := Component m b None body]"
    using p(1) Suc.prems(2) by (simp add: take_update_swap)
  then have d: "drop (Suc i) (take len (dirtyComponents ?s1)) = drop (Suc i) (take len (dirtyComponents s))"
    by simp
  have "drop i (take len (dirtyComponents s)) =
      dirtyComponents s ! i # drop (Suc i) (take len (dirtyComponents s))"
    using lt by (simp add: Cons_nth_drop_Suc [symmetric])
  with n2 p(2,3) d c show ?case
    by (simp add: reconciled_append)
qed

lemma runBatchedUpdates_order:
  assumes "runBatchedUpdates (length (dirtyComponents s)) cq s = (r, cq1, s1)"
  shows "r = None"
    and "sorted (reconciled (drop (length (events s)) (events s1)))"
    and "mset (reconciled (drop (length (events s)) (events s1))) =
           mset (map component_mountOrder (dirtyComponents s))"
proof -
  let ?s = "s\<lparr>dirtyComponents := sort_key component_mountOrder (dirtyComponents s),
          global_updateBatchNumber := global_updateBatchNumber s + 1\<rparr>"
  from assms have "runBatchedUpdates_loop (length (dirtyComponents s)) 0 cq ?s = (r, cq1, s1)"
    by (simp add: runBatchedUpdates_def)
  from runBatchedUpdates_loop_order [OF _ _ this]
  obtain new where n: "r = None" "events s1 = events s @ new"
    "reconciled new = map component_mountOrder (sort_key component_mountOrder (dirtyComponents s))"
    by auto
  show "r = None" by (rule n(1))
  show "sorted (reconciled (drop (length (events s)) (events s1)))"
    using n(2,3) by simp
  show "mset (reconciled (drop (length (events s)) (events s1))) =
           mset (map component_mountOrder (dirtyComponents s))"
    using n(2,3) by simp
qed

lemma sorted_not_after:
  assumes "sorted xs" and "(a::nat) < b"
  shows "a \<notin> set (dropWhile (\<lambda>m. m \<noteq> b) xs)"
proof
  assume a: "a \<in> set (dropWhile (\<lambda>m. m \<noteq> b) xs)"
  have ne: "dropWhile (\<lambda>m. m \<noteq> b) xs \<noteq> []"
  proof
    assume "dropWhile (\<lambda>m. m \<noteq> b) xs = []"
    with a show False by (simp only: list.set empty_iff)
  qed
  then have hd: "hd (dropWhile (\<lambda>m. m \<noteq> b) xs) = b"
    using hd_dropWhile [of "\<lambda>m. m \<noteq> b" xs] by blast
  have "sorted (dropWhile (\<lambda>m. m \<noteq> b) xs)"
    using assms(1) by (metis sorted_append takeWhile_dropWhile_id)
  with ne hd a have "b \<le> a"
    by (cases "dropWhile (\<lambda>m. m \<noteq> b) xs") auto
  with assms(2) show False by simp
qed

lemma lineage_ordered:
  "ancestors_first t \<Longrightarrow> (a, b) \<in> set (lineage t) \<Longrightarrow> a < b"
  "ancestors_first_list ts \<Longrightarrow> (a, b) \<in> set (lineage_list ts) \<Longrightarrow> a < b"
  by (induction t and ts rule: lineage_lineage_list.induct) (auto simp: list_all_iff)


lemma inner_then_outer_fields:
  "dirtyComponents inner_then_outer = [Component 2 (Some 1) None [], Component 1 (Some 1) None []]"
  "events inner_then_outer = []"
  by (simp_all add: inner_then_outer_def idle_def enqueueUpdate_def)




section \<open>The flush loop and the asap callbacks\<close>

subsection \<open>Accounting of the callbacks\<close>

lemma asap_called_append: "asap_called (xs @ ys) = asap_called xs + asap_called ys"
  by (induction xs rule: asap_called.induct) simp_all

lemma asap_invoked_append: "asap_invoked (xs @ ys) = asap_invoked xs + asap_invoked ys"
  by (induction xs rule: asap_invoked.induct) simp_all

lemma answers_refl: "answers s {#} s"
  by (simp add: answers_def)

lemma answers_trans:
  assumes "answers s a s1" and "answers s1 b s2"
  shows "answers s (a + b) s2"
proof -
  from assms(1) obtain n1 where 1: "events s1 = events s @ n1"
    "asap_invoked n1 + mset (map fst (asapCallbackQueue s1)) =
       mset (map fst (asapCallbackQueue s)) + a + asap_called n1"
    by (auto simp: answers_def)
  from assms(2) obtain n2 where 2: "events s2 = events s1 @ n2"
    "asap_invoked n2 + mset (map fst (asapCallbackQueue s2)) =
       mset (map fst (asapCallbackQueue s1)) + b + asap_called n2"
    by (auto simp: answers_def)
  have "asap_invoked (n1 @ n2) + mset (map fst (asapCallbackQueue s2)) =
      asap_invoked n1 + (mset (map fst (asapCallbackQueue s1)) + b + asap_called n2)"
    using 2(2) by (simp add: asap_invoked_append ac_simps)
  also have "\<dots> = (mset (map fst (asapCallbackQueue s)) + a + asap_called n1) + b + asap_called n2"
    using 1(2) by (simp add: ac_simps)
  finally have "asap_invoked (n1 @ n2) + mset (map fst (asapCallbackQueue s2)) =
      mset (map fst (asapCallbackQueue s)) + (a + b) + asap_called (n1 @ n2)"
    by (simp add: asap_called_append ac_simps)
  with 1(1) 2(1) show ?thesis
    unfolding answers_def by (intro exI [of _ "n1 @ n2"]) simp
qed

lemma answers_trans0: "answers s {#} s1 \<Longrightarrow> answers s1 b s2 \<Longrightarrow> answers s b s2"
  using answers_trans [of s "{#}" s1 b s2] by simp

lemma asap_answers: "answers s {#} (asap callback c s)"
  unfolding answers_def by (intro exI [of _ "[AsapCalled callback]"]) (simp add: asap_def)

lemma enqueueUpdate_answers: "answers s {#} (enqueueUpdate component s)"
  unfolding answers_def
  by (intro exI [of _ "[]"]) (simp add: enqueueUpdate_def)

lemma run_requests_answers: "answers s {#} (run_requests rs s)"
proof (induction rs arbitrary: s)
  case Nil
  show ?case by (simp add: answers_refl)
next
  case (Cons r rs)
  show ?case
  proof (cases r)
    case (Asap t c)
    with answers_trans0 [OF asap_answers Cons] show ?thesis by simp
  next
    case (EnqueueUpdate d)
    with answers_trans0 [OF enqueueUpdate_answers Cons] show ?thesis by simp
  qed
qed

lemma notifyAll_tasks_callbacks_answers:
  "notifyAll_tasks CallbackInvoked q s = (r, s') \<Longrightarrow> answers s {#} s'"
proof (induction q arbitrary: s)
  case Nil
  then show ?case by (simp add: answers_refl)
next
  case (Cons p q)
  obtain t c where p: "p = (t, c)" by (cases p)
  let ?s1 = "run_requests (task_body t) (s\<lparr>events := events s @ [CallbackInvoked t]\<rparr>)"
  have "answers s {#} (s\<lparr>events := events s @ [CallbackInvoked t]\<rparr>)"
    unfolding answers_def by (intro exI [of _ "[CallbackInvoked t]"]) simp
  from answers_trans0 [OF this run_requests_answers] have 1: "answers s {#} ?s1" .
  show ?case
  proof (cases "task_thrown t")
    case (Some e)
    with Cons.prems p have "s' = ?s1" by simp
    with 1 show ?thesis by simp
  next
    case None
    with Cons.prems p have "notifyAll_tasks CallbackInvoked q ?s1 = (r, s')" by simp
    from answers_trans0 [OF 1 Cons.IH [OF this]] show ?thesis .
  qed
qed

lemma notifyAll_tasks_asap_answers:
  "notifyAll_tasks AsapInvoked q s = (r, s') \<Longrightarrow>
     \<exists>called lost. answers s called s' \<and> called + lost = mset (map fst q) \<and>
       (r = None \<longrightarrow> lost = {#})"
proof (induction q arbitrary: s)
  case Nil
  then show ?case by (simp add: answers_refl)
next
  case (Cons p q)
  obtain t c where p: "p = (t, c)" by (cases p)
  let ?s1 = "run_requests (task_body t) (s\<lparr>events := events s @ [AsapInvoked t]\<rparr>)"
  have "answers s {#t#} (s\<lparr>events := events s @ [AsapInvoked t]\<rparr>)"
    unfolding answers_def by (intro exI [of _ "[AsapInvoked t]"]) simp
  from answers_trans [OF this run_requests_answers] have 1: "answers s {#t#} ?s1" by simp
  show ?case
  proof (cases "task_thrown t")
    case (Some e)
    with Cons.prems p have "s' = ?s1" "r = Some e" by simp_all
    with 1 show ?thesis
      by (intro exI [of _ "{#t#}"] exI [of _ "mset (map fst q)"]) (simp add: p)
  next
    case None
    with Cons.prems p have "notifyAll_tasks AsapInvoked q ?s1 = (r, s')" by simp
    from Cons.IH [OF this] obtain called lost where
      2: "answers ?s1 called s'" "called + lost = mset (map fst q)" "r = None \<longrightarrow> lost = {#}"
      by blast
    from answers_trans [OF 1 2(1)] 2(2,3) show ?thesis
      by (intro exI [of _ "{#t#} + called"] exI [of _ lost]) (simp add: p)
  qed
qed

lemma settles_answers: "answers s {#} s' \<Longrightarrow> settles r s s'"
  by (auto simp: answers_def settles_def)

lemma settles_exact: "settles None s s' \<Longrightarrow> answers s {#} s'"
  by (auto simp: answers_def settles_def)

lemma settles_events: "settles r s s' \<Longrightarrow> \<exists>new. events s' = events s @ new"
  by (auto simp: settles_def)

lemma settles_trans:
  assumes "settles r1 s s1" and "settles r2 s1 s2" and "r = None \<Longrightarrow> r1 = None \<and> r2 = None"
  shows "settles r s s2"
proof -
  from assms(1) obtain n1 l1 where 1: "events s1 = events s @ n1"
    "asap_invoked n1 + mset (map fst (asapCallbackQueue s1)) + l1 =
       mset (map fst (asapCallbackQueue s)) + asap_called n1"
    "r1 = None \<longrightarrow> l1 = {#}"
    by (auto simp: settles_def)
  from assms(2) obtain n2 l2 where 2: "events s2 = events s1 @ n2"
    "asap_invoked n2 + mset (map fst (asapCallbackQueue s2)) + l2 =
       mset (map fst (asapCallbackQueue s1)) + asap_called n2"
    "r2 = None \<longrightarrow> l2 = {#}"
    by (auto simp: settles_def)
  have "asap_invoked (n1 @ n2) + mset (map fst (asapCallbackQueue s2)) + (l1 + l2) =
      asap_invoked n1 + l1 + (asap_invoked n2 + mset (map fst (asapCallbackQueue s2)) + l2)"
    by (simp add: asap_invoked_append ac_simps)
  also have "\<dots> = asap_invoked n1 + l1 + (mset (map fst (asapCallbackQueue s1)) + asap_called n2)"
    using 2(2) by simp
  also have "\<dots> = (asap_invoked n1 + mset (map fst (asapCallbackQueue s1)) + l1) + asap_called n2"
    by (simp add: ac_simps)
  also have "\<dots> = mset (map fst (asapCallbackQueue s)) + asap_called (n1 @ n2)"
    using 1(2) by (simp add: asap_called_append ac_simps)
  finally have "asap_invoked (n1 @ n2) + mset (map fst (asapCallbackQueue s2)) + (l1 + l2) =
      mset (map fst (asapCallbackQueue s)) + asap_called (n1 @ n2)" .
  moreover have "r = None \<longrightarrow> l1 + l2 = {#}" using assms(3) 1(3) 2(3) by simp
  ultimately show ?thesis
    using 1(1) 2(1) unfolding settles_def
    by (intro exI [of _ "n1 @ n2"] exI [of _ "l1 + l2"]) simp
qed

lemma drain_asap_settles:
  assumes "drain_asap s = (r, s')"
  shows "settles r s s'"
proof -
  let ?s0 = "s\<lparr>asapEnqueued := False, asapCallbackQueue := []\<rparr>"
  from assms have "notifyAll_tasks AsapInvoked (asapCallbackQueue s) ?s0 = (r, s')"
    by (simp add: drain_asap_def)
  from notifyAll_tasks_asap_answers [OF this] obtain called lost where
    a: "answers ?s0 called s'" "called + lost = mset (map fst (asapCallbackQueue s))"
    "r = None \<longrightarrow> lost = {#}"
    by blast
  from a(1) obtain new where n: "events s' = events s @ new"
    "asap_invoked new + mset (map fst (asapCallbackQueue s')) = called + asap_called new"
    by (auto simp: answers_def)
  have "asap_invoked new + mset (map fst (asapCallbackQueue s')) + lost =
      mset (map fst (asapCallbackQueue s)) + asap_called new"
    using n(2) a(2) by (simp add: ac_simps)
  with n(1) a(3) show ?thesis unfolding settles_def by blast
qed

lemma run_requests_flagged: "flagged s \<Longrightarrow> flagged (run_requests rs s)"
proof (induction rs arbitrary: s)
  case Nil
  then show ?case by simp
next
  case (Cons r rs)
  show ?case
  proof (cases r)
    case (Asap t c)
    have "flagged (asap t c s)" by (simp add: flagged_def asap_def)
    from Cons(1) [OF this] Asap show ?thesis by simp
  next
    case (EnqueueUpdate d)
    have "flagged (enqueueUpdate d s)" using Cons(2) by (simp add: flagged_def enqueueUpdate_def)
    from Cons(1) [OF this] EnqueueUpdate show ?thesis by simp
  qed
qed

lemma notifyAll_tasks_flagged: "flagged s \<Longrightarrow> flagged (snd (notifyAll_tasks ev q s))"
proof (induction q arbitrary: s)
  case Nil
  then show ?case by simp
next
  case (Cons p q)
  obtain t c where p: "p = (t, c)" by (cases p)
  from Cons(2) have "flagged (s\<lparr>events := events s @ [ev t]\<rparr>)" by (simp add: flagged_def)
  from run_requests_flagged [OF this] Cons(1) show ?case
    by (cases "task_thrown t") (simp_all add: p)
qed

lemma drain_asap_flagged: "flagged (snd (drain_asap s))"
  unfolding drain_asap_def by (rule notifyAll_tasks_flagged) (simp add: flagged_def)

lemma run_requests_work:
  "\<exists>app. dirtyComponents (run_requests rs s) = dirtyComponents s @ app \<and>
     sum_list (map component_weight app) + asap_work (run_requests rs s)
       \<le> asap_work s + sum_list (map request_weight rs)"
proof (induction rs arbitrary: s)
  case Nil
  show ?case by simp
next
  case (Cons r rs)
  show ?case
  proof (cases r)
    case (Asap t c)
    from Cons [of "asap t c s"] obtain app where
      a: "dirtyComponents (run_requests rs (asap t c s)) = dirtyComponents (asap t c s) @ app"
      "sum_list (map component_weight app) + asap_work (run_requests rs (asap t c s))
         \<le> asap_work (asap t c s) + sum_list (map request_weight rs)"
      by blast
    have "asap_work (asap t c s) \<le> asap_work s + Suc (task_weight t)"
      by (simp add: asap_work_def asap_def)
    with a Asap show ?thesis by (simp add: asap_def)
  next
    case (EnqueueUpdate d)
    from Cons [of "enqueueUpdate d s"] obtain app where
      a: "dirtyComponents (run_requests rs (enqueueUpdate d s)) =
            dirtyComponents (enqueueUpdate d s) @ app"
      "sum_list (map component_weight app) + asap_work (run_requests rs (enqueueUpdate d s))
         \<le> asap_work (enqueueUpdate d s) + sum_list (map request_weight rs)"
      by blast
    from enqueueUpdate_effect(1) [of d s] obtain c where
      c: "dirtyComponents (enqueueUpdate d s) = dirtyComponents s @ [c]"
      "component_weight c = component_weight d"
      by blast
    have "asap_work (enqueueUpdate d s) = asap_work s"
      by (simp add: asap_work_def enqueueUpdate_def)
    with a c EnqueueUpdate show ?thesis by simp
  qed
qed

lemma run_requests_pending:
  "pending_work (run_requests rs s) \<le> pending_work s + sum_list (map request_weight rs)"
  using run_requests_work [of rs s] by (auto simp: pending_work_def)

lemma task_weight_body: "task_weight t = Suc (sum_list (map request_weight (task_body t)))"
  by (cases t) simp

lemma notifyAll_tasks_pending:
  "pending_work (snd (notifyAll_tasks ev q s)) + length q
     \<le> pending_work s + sum_list (map (\<lambda>(callback, c). task_weight callback) q)"
proof (induction q arbitrary: s)
  case Nil
  show ?case by simp
next
  case (Cons p q)
  obtain t c where p: "p = (t, c)" by (cases p)
  let ?s = "run_requests (task_body t) (s\<lparr>events := events s @ [ev t]\<rparr>)"
  have 1: "pending_work ?s \<le> pending_work s + sum_list (map request_weight (task_body t))"
    using run_requests_pending [of "task_body t" "s\<lparr>events := events s @ [ev t]\<rparr>"]
    by (simp add: pending_work_def asap_work_def)
  have 2: "length q \<le> sum_list (map (\<lambda>(callback, c). task_weight callback) q)"
    by (induction q) (auto simp: task_weight_body)
  show ?case
  proof (cases "task_thrown t")
    case (Some e)
    with 1 2 show ?thesis by (simp add: p task_weight_body)
  next
    case None
    with 1 Cons [of ?s] show ?thesis by (simp add: p task_weight_body)
  qed
qed

lemma drain_asap_pending:
  assumes "asapEnqueued s"
  shows "pending_work (snd (drain_asap s)) < pending_work s"
proof -
  let ?s = "s\<lparr>asapEnqueued := False, asapCallbackQueue := []\<rparr>"
  have "pending_work ?s + sum_list (map (\<lambda>(callback, c). task_weight callback) (asapCallbackQueue s)) + 1
      = pending_work s"
    using assms by (simp add: pending_work_def asap_work_def)
  with notifyAll_tasks_pending [of AsapInvoked "asapCallbackQueue s" ?s] show ?thesis
    by (simp add: drain_asap_def)
qed

lemma runBatchedUpdates_loop_invariant:
  assumes "runBatchedUpdates_loop len i cq s = (r, cq1, s1)"
    and "i \<le> len" and "len \<le> length (dirtyComponents s)" and "P i cq s"
    and step: "\<And>i cq s m b cbs body.
      i < len \<Longrightarrow> len \<le> length (dirtyComponents s) \<Longrightarrow>
      dirtyComponents s ! i = Component m b cbs body \<Longrightarrow> P i cq s \<Longrightarrow>
      P (Suc i)
        (cq @ (case cbs of None \<Rightarrow> [] | Some cbs \<Rightarrow> map (\<lambda>callback. (callback, m)) cbs))
        (performUpdateIfNecessary (Component m b None body)
           (s\<lparr>dirtyComponents := (dirtyComponents s)[i := Component m b None body]\<rparr>))"
  shows "P len cq1 s1 \<and> len \<le> length (dirtyComponents s1)"
  using assms(1-4)
proof (induction "len - i" arbitrary: i cq s)
  case 0
  then show ?case by (simp add: runBatchedUpdates_loop.simps [of len i])
next
  case (Suc k)
  then have lt: "i < len" "i < length (dirtyComponents s)" by simp_all
  obtain m b cbs body where c: "dirtyComponents s ! i = Component m b cbs body"
    by (cases "dirtyComponents s ! i") auto
  let ?s0 = "s\<lparr>dirtyComponents := (dirtyComponents s)[i := Component m b None body]\<rparr>"
  let ?s1 = "performUpdateIfNecessary (Component m b None body) ?s0"
  let ?cq = "cq @ (case cbs of None \<Rightarrow> [] | Some cbs \<Rightarrow> map (\<lambda>callback. (callback, m)) cbs)"
  from run_requests_dirty [of body "?s0\<lparr>events := events ?s0 @ [Reconciled m]\<rparr>"]
  obtain app where p: "dirtyComponents ?s1 = (dirtyComponents s)[i := Component m b None body] @ app"
    by (auto simp: performUpdateIfNecessary_def)
  have rec: "runBatchedUpdates_loop len (Suc i) ?cq ?s1 = (r, cq1, s1)"
    using lt c Suc.prems(1) by (subst (asm) runBatchedUpdates_loop.simps) simp
  have len: "len \<le> length (dirtyComponents ?s1)" using Suc.prems(3) p by simp
  have k: "k = len - Suc i" using Suc.hyps(2) by simp
  have le: "Suc i \<le> len" using lt by simp
  have P: "P (Suc i) ?cq ?s1" by (rule step [OF lt(1) Suc.prems(3) c Suc.prems(4)])
  from Suc.hyps(1) [OF k rec le len P] show ?case .
qed

lemma performUpdateIfNecessary_flagged:
  "flagged s \<Longrightarrow> flagged (performUpdateIfNecessary c (s\<lparr>dirtyComponents := ds\<rparr>))"
  unfolding performUpdateIfNecessary_def
  by (rule run_requests_flagged) (simp add: flagged_def)

lemma performUpdateIfNecessary_answers:
  "answers s {#} (performUpdateIfNecessary c (s\<lparr>dirtyComponents := ds\<rparr>))"
proof -
  have "answers s {#} (s\<lparr>dirtyComponents := ds,
      events := events s @ [Reconciled (component_mountOrder c)]\<rparr>)"
    unfolding answers_def by (intro exI [of _ "[Reconciled (component_mountOrder c)]"]) simp
  from answers_trans0 [OF this run_requests_answers] show ?thesis
    by (simp add: performUpdateIfNecessary_def)
qed

lemma run_requests_quiet:
  "\<exists>new. events (run_requests rs s) = events s @ new \<and> asap_invoked new = {#}"
proof (induction rs arbitrary: s)
  case Nil
  show ?case by simp
next
  case (Cons r rs)
  show ?case
  proof (cases r)
    case (Asap t c)
    from Cons [of "asap t c s"] Asap show ?thesis
      by (auto simp: asap_def asap_invoked_append)
  next
    case (EnqueueUpdate d)
    from Cons [of "enqueueUpdate d s"] EnqueueUpdate show ?thesis
      by (auto simp: enqueueUpdate_def)
  qed
qed

lemma runBatchedUpdates_loop_flagged:
  assumes "runBatchedUpdates_loop len i cq s = (r, cq1, s1)"
    and "i \<le> len" and "len \<le> length (dirtyComponents s)" and "flagged s"
  shows "flagged s1"
  using runBatchedUpdates_loop_invariant
    [where P = "\<lambda>i cq s. flagged s", OF assms performUpdateIfNecessary_flagged]
  by simp

lemma runBatchedUpdates_loop_answers:
  assumes "runBatchedUpdates_loop len i cq s = (r, cq1, s1)"
    and "i \<le> len" and "len \<le> length (dirtyComponents s)"
  shows "answers s {#} s1"
proof -
  have "answers s {#} s1 \<and> len \<le> length (dirtyComponents s1)"
  proof (rule runBatchedUpdates_loop_invariant
      [where P = "\<lambda>i cq s'. answers s {#} s'", OF assms answers_refl])
    fix s' :: scheduler and i m b body
    assume "answers s {#} s'"
    from answers_trans0 [OF this performUpdateIfNecessary_answers]
    show "answers s {#} (performUpdateIfNecessary (Component m b None body)
        (s'\<lparr>dirtyComponents := (dirtyComponents s')[i := Component m b None body]\<rparr>))" .
  qed
  then show ?thesis by simp
qed

lemma runBatchedUpdates_loop_quiet:
  assumes "runBatchedUpdates_loop len i cq s = (r, cq1, s1)"
    and "i \<le> len" and "len \<le> length (dirtyComponents s)"
  shows "\<exists>new. events s1 = events s @ new \<and> asap_invoked new = {#}"
proof -
  let ?P = "\<lambda>(i::nat) (cq::(task \<times> nat) list) s'.
     \<exists>new. events s' = events s @ new \<and> asap_invoked new = {#}"
  have "?P len cq1 s1 \<and> len \<le> length (dirtyComponents s1)"
  proof (rule runBatchedUpdates_loop_invariant [where P = ?P, OF assms])
    show "\<exists>new. events s = events s @ new \<and> asap_invoked new = {#}" by simp
  next
    fix s' :: scheduler and i m b body
    assume "\<exists>new. events s' = events s @ new \<and> asap_invoked new = {#}"
    then obtain new where n: "events s' = events s @ new" "asap_invoked new = {#}" by blast
    let ?s0 = "s'\<lparr>dirtyComponents := (dirtyComponents s')[i := Component m b None body]\<rparr>"
    from run_requests_quiet [of body "?s0\<lparr>events := events ?s0 @ [Reconciled m]\<rparr>"]
    obtain new2 where "events (performUpdateIfNecessary (Component m b None body) ?s0) =
        events s' @ Reconciled m # new2" "asap_invoked new2 = {#}"
      by (auto simp: performUpdateIfNecessary_def)
    with n show "\<exists>new. events (performUpdateIfNecessary (Component m b None body) ?s0) =
        events s @ new \<and> asap_invoked new = {#}"
      by (intro exI [of _ "new @ Reconciled m # new2"]) (simp add: asap_invoked_append)
  qed
  then show ?thesis by simp
qed

lemma runBatchedUpdates_loop_work:
  assumes "runBatchedUpdates_loop len i cq s = (r, cq1, s1)"
    and "i \<le> len" and "len \<le> length (dirtyComponents s)"
  shows "sum_list (map component_weight (drop len (dirtyComponents s1))) + asap_work s1 +
         sum_list (map (\<lambda>(callback, c). task_weight callback) cq1) + len
       \<le> sum_list (map component_weight (drop i (dirtyComponents s))) + asap_work s +
         sum_list (map (\<lambda>(callback, c). task_weight callback) cq) + i"
    and "len \<le> length (dirtyComponents s1)"
proof -
  define C where "C = sum_list (map component_weight (drop i (dirtyComponents s))) + asap_work s +
         sum_list (map (\<lambda>(callback, c). task_weight callback) cq) + i"
  let ?P = "\<lambda>i cq s. sum_list (map component_weight (drop i (dirtyComponents s))) + asap_work s +
         sum_list (map (\<lambda>(callback, c). task_weight callback) cq) + i \<le> C"
  have "?P len cq1 s1 \<and> len \<le> length (dirtyComponents s1)"
  proof (rule runBatchedUpdates_loop_invariant [where P = ?P, OF assms])
    show "?P i cq s" by (simp add: C_def)
  next
    fix i and cq :: "(task \<times> nat) list" and s :: scheduler and m b cbs body
    assume lt: "i < len" and len: "len \<le> length (dirtyComponents s)"
      and c: "dirtyComponents s ! i = Component m b cbs body" and P: "?P i cq s"
    let ?s0 = "s\<lparr>dirtyComponents := (dirtyComponents s)[i := Component m b None body]\<rparr>"
    let ?s1 = "performUpdateIfNecessary (Component m b None body) ?s0"
    let ?new = "case cbs of None \<Rightarrow> [] | Some cbs \<Rightarrow> map (\<lambda>callback. (callback, m)) cbs"
    from run_requests_work [of body "?s0\<lparr>events := events ?s0 @ [Reconciled m]\<rparr>"]
    obtain app where a: "dirtyComponents ?s1 = (dirtyComponents s)[i := Component m b None body] @ app"
      "sum_list (map component_weight app) + asap_work ?s1
        \<le> asap_work s + sum_list (map request_weight body)"
      by (auto simp: performUpdateIfNecessary_def asap_work_def)
    have d: "drop (Suc i) (dirtyComponents ?s1) = drop (Suc i) (dirtyComponents s) @ app"
      using a(1) lt len by simp
    have "drop i (dirtyComponents s) = Component m b cbs body # drop (Suc i) (dirtyComponents s)"
      using lt len c by (simp add: Cons_nth_drop_Suc [symmetric])
    then have w: "sum_list (map component_weight (drop i (dirtyComponents s))) =
        Suc ((case cbs of None \<Rightarrow> 0 | Some cbs \<Rightarrow> sum_list (map task_weight cbs)) +
          sum_list (map request_weight body)) +
        sum_list (map component_weight (drop (Suc i) (dirtyComponents s)))"
      by simp
    have q: "sum_list (map (\<lambda>(callback, c). task_weight callback) ?new) =
        (case cbs of None \<Rightarrow> 0 | Some cbs \<Rightarrow> sum_list (map task_weight cbs))"
      by (cases cbs) (simp_all add: comp_def)
    from P w a(2) show "?P (Suc i) (cq @ ?new) ?s1"
      unfolding d by (simp add: q)
  qed
  then show "sum_list (map component_weight (drop len (dirtyComponents s1))) + asap_work s1 +
         sum_list (map (\<lambda>(callback, c). task_weight callback) cq1) + len
       \<le> sum_list (map component_weight (drop i (dirtyComponents s))) + asap_work s +
         sum_list (map (\<lambda>(callback, c). task_weight callback) cq) + i"
    and "len \<le> length (dirtyComponents s1)"
    by (simp_all add: C_def)
qed

lemma task_returns_parts:
  "task_returns t \<Longrightarrow> task_thrown t = None \<and> list_all request_returns (task_body t)"
  by (cases t) simp

lemma enqueueUpdate_returns:
  assumes "component_returns d" and "all_return s"
  shows "all_return (enqueueUpdate d s)"
proof -
  obtain m b cbs body where d: "d = Component m b cbs body" by (cases d)
  with assms show ?thesis
    by (cases b) (simp_all add: all_return_def enqueueUpdate_def)
qed

lemma run_requests_returns:
  "list_all request_returns rs \<Longrightarrow> all_return s \<Longrightarrow> all_return (run_requests rs s)"
proof (induction rs arbitrary: s)
  case Nil
  then show ?case by simp
next
  case (Cons r rs)
  show ?case
  proof (cases r)
    case (Asap t c)
    with Cons.prems have "all_return (asap t c s)" by (simp add: all_return_def asap_def)
    with Cons.IH [of "asap t c s"] Cons.prems(1) Asap show ?thesis by simp
  next
    case (EnqueueUpdate d)
    with Cons.prems have "all_return (enqueueUpdate d s)" by (simp add: enqueueUpdate_returns)
    with Cons.IH [of "enqueueUpdate d s"] Cons.prems(1) EnqueueUpdate show ?thesis by simp
  qed
qed

lemma notifyAll_tasks_returns:
  "list_all (\<lambda>(callback, c). task_returns callback) q \<Longrightarrow> all_return s \<Longrightarrow>
     fst (notifyAll_tasks ev q s) = None \<and> all_return (snd (notifyAll_tasks ev q s))"
proof (induction q arbitrary: s)
  case Nil
  then show ?case by simp
next
  case (Cons p q)
  obtain t c where p: "p = (t, c)" by (cases p)
  from Cons.prems(1) p have t: "task_thrown t = None" "list_all request_returns (task_body t)"
    and q: "list_all (\<lambda>(callback, c). task_returns callback) q"
    by (simp_all add: task_returns_parts)
  from Cons.prems(2) have "all_return (s\<lparr>events := events s @ [ev t]\<rparr>)"
    by (simp add: all_return_def)
  from Cons.IH [OF q run_requests_returns [OF t(2) this]] t(1) show ?case by (simp add: p)
qed

lemma drain_asap_returns:
  assumes "all_return s"
  shows "fst (drain_asap s) = None \<and> all_return (snd (drain_asap s))"
  unfolding drain_asap_def
  using assms by (intro notifyAll_tasks_returns) (simp_all add: all_return_def)

lemma runBatchedUpdates_loop_returns:
  assumes "runBatchedUpdates_loop len i cq s = (r, cq1, s1)"
    and "i \<le> len" and "len \<le> length (dirtyComponents s)"
    and "all_return s \<and> list_all (\<lambda>(callback, c). task_returns callback) cq"
  shows "all_return s1 \<and> list_all (\<lambda>(callback, c). task_returns callback) cq1"
proof -
  let ?P = "\<lambda>(i::nat) cq s. all_return s \<and> list_all (\<lambda>(callback, c). task_returns callback) cq"
  have "?P len cq1 s1 \<and> len \<le> length (dirtyComponents s1)"
  proof (rule runBatchedUpdates_loop_invariant [where P = ?P, OF assms])
    fix i and cq :: "(task \<times> nat) list" and s :: scheduler and m b cbs body
    assume lt: "i < len" and len: "len \<le> length (dirtyComponents s)"
      and c: "dirtyComponents s ! i = Component m b cbs body" and P: "?P i cq s"
    let ?s0 = "s\<lparr>dirtyComponents := (dirtyComponents s)[i := Component m b None body]\<rparr>"
    let ?new = "case cbs of None \<Rightarrow> [] | Some cbs \<Rightarrow> map (\<lambda>callback. (callback, m)) cbs"
    from P lt len have "component_returns (dirtyComponents s ! i)"
      by (simp add: all_return_def list_all_length)
    with c have body: "list_all request_returns body"
      and cbs: "case cbs of None \<Rightarrow> True | Some cbs \<Rightarrow> list_all task_returns cbs"
      by simp_all
    have "list_all component_returns ((dirtyComponents s)[i := Component m b None body])"
      using P body set_update_subset_insert [of "dirtyComponents s" i "Component m b None body"]
      by (auto simp: all_return_def list_all_iff)
    with P have "all_return (?s0\<lparr>events := events ?s0 @ [Reconciled m]\<rparr>)"
      by (simp add: all_return_def)
    from run_requests_returns [OF body this]
    have 1: "all_return (performUpdateIfNecessary (Component m b None body) ?s0)"
      by (simp add: performUpdateIfNecessary_def)
    have 2: "list_all (\<lambda>(callback, c). task_returns callback) ?new"
      using cbs by (cases cbs) (simp_all add: list_all_iff)
    from 1 2 P show "?P (Suc i) (cq @ ?new) (performUpdateIfNecessary (Component m b None body) ?s0)"
      by simp
  qed
  then show ?thesis by simp
qed

lemma answers_events: "answers s e s' \<Longrightarrow> \<exists>new. events s' = events s @ new"
  by (auto simp: answers_def)

lemma pass_first_events:
  assumes "pass_first s s1" and "\<exists>new. events s2 = events s1 @ new"
  shows "pass_first s s2"
proof -
  from assms(1) obtain pass rest where p: "events s1 = events s @ pass @ rest"
    "asap_invoked pass = {#}"
    "reconciled pass = map component_mountOrder (sort_key component_mountOrder (dirtyComponents s))"
    by (auto simp: pass_first_def)
  from assms(2) obtain new where "events s2 = events s1 @ new" by blast
  with p show ?thesis
    unfolding pass_first_def by (intro exI [of _ pass] exI [of _ "rest @ new"]) simp
qed

lemma pass_first_idle:
  assumes "dirtyComponents s = []" and "\<exists>new. events s' = events s @ new"
  shows "pass_first s s'"
proof -
  from assms(2) obtain new where "events s' = events s @ new" by blast
  with assms(1) show ?thesis
    unfolding pass_first_def by (intro exI [of _ "[]"] exI [of _ new]) simp
qed

lemma sum_list_sort_key:
  "sum_list (map w (sort_key f xs)) = (sum_list (map w xs) :: nat)"
proof -
  have "sum_mset (image_mset w (mset (sort_key f xs))) = sum_mset (image_mset w (mset xs))"
    by simp
  then show ?thesis by (simp only: mset_map [symmetric] sum_mset_sum_list)
qed

lemma runBatchedUpdates_pass:
  assumes "runBatchedUpdates (length (dirtyComponents s)) [] s = (r, cq1, s1)"
  shows "r = None"
    and "flagged s \<Longrightarrow> flagged s1"
    and "answers s {#} s1"
    and "pass_first s s1"
    and "length (dirtyComponents s) \<le> length (dirtyComponents s1)"
    and "sum_list (map component_weight (drop (length (dirtyComponents s)) (dirtyComponents s1))) +
         asap_work s1 + sum_list (map (\<lambda>(callback, c). task_weight callback) cq1) +
         length (dirtyComponents s) \<le> pending_work s"
    and "all_return s \<Longrightarrow>
         all_return s1 \<and> list_all (\<lambda>(callback, c). task_returns callback) cq1"
proof -
  let ?s = "s\<lparr>dirtyComponents := sort_key component_mountOrder (dirtyComponents s),
          global_updateBatchNumber := global_updateBatchNumber s + 1\<rparr>"
  let ?len = "length (dirtyComponents s)"
  from assms have l: "runBatchedUpdates_loop ?len 0 [] ?s = (r, cq1, s1)"
    by (simp add: runBatchedUpdates_def)
  have 0: "0 \<le> ?len" by simp
  have len: "?len \<le> length (dirtyComponents ?s)" by simp
  show "r = None" by (rule runBatchedUpdates_order(1) [OF assms])
  show "flagged s1" if "flagged s"
  proof (rule runBatchedUpdates_loop_flagged [OF l 0 len])
    from that show "flagged ?s" by (simp add: flagged_def)
  qed
  from runBatchedUpdates_loop_answers [OF l 0 len]
  show "answers s {#} s1" by (simp add: answers_def)
  from runBatchedUpdates_loop_order [OF 0 len l]
  obtain new where n: "events s1 = events s @ new"
    "reconciled new = map component_mountOrder (sort_key component_mountOrder (dirtyComponents s))"
    by auto
  from runBatchedUpdates_loop_quiet [OF l 0 len] n(1) have "asap_invoked new = {#}" by auto
  with n show "pass_first s s1"
    unfolding pass_first_def by (intro exI [of _ new] exI [of _ "[]"]) simp
  from runBatchedUpdates_loop_work(2) [OF l 0 len]
  show "?len \<le> length (dirtyComponents s1)" .
  from runBatchedUpdates_loop_work(1) [OF l 0 len]
  show "sum_list (map component_weight (drop ?len (dirtyComponents s1))) +
         asap_work s1 + sum_list (map (\<lambda>(callback, c). task_weight callback) cq1) +
         ?len \<le> pending_work s"
    by (simp add: pending_work_def asap_work_def sum_list_sort_key)
  show "all_return s1 \<and> list_all (\<lambda>(callback, c). task_returns callback) cq1" if "all_return s"
  proof (rule runBatchedUpdates_loop_returns [OF l 0 len])
    from that show "all_return ?s \<and> list_all (\<lambda>(callback, c). task_returns callback) []"
      by (simp add: all_return_def list_all_iff)
  qed
qed


lemma perform_sound:
  assumes "sound flush" and "flagged s" and "perform flush s = Some (r, s3)"
  shows "flagged s3" and "settles r s s3" and "pass_first s s3"
    and "all_return s \<Longrightarrow> r = None \<and> all_return s3"
proof -
  let ?len = "length (dirtyComponents s)"
  obtain thrown cq1 s1 where p: "runBatchedUpdates ?len [] s = (thrown, cq1, s1)"
    by (cases "runBatchedUpdates ?len [] s") auto
  note f = runBatchedUpdates_pass [OF p]
  from assms(3) p obtain thrown2 s2 where
    c: "NESTED_UPDATES_close flush ?len s1 = Some (thrown2, s2)"
    by (cases "NESTED_UPDATES_close flush ?len s1") (auto simp: perform_def)
  obtain thrown3 s3' where n: "notifyAll_tasks CallbackInvoked cq1 s2 = (thrown3, s3')"
    by (cases "notifyAll_tasks CallbackInvoked cq1 s2") auto
  from assms(3) p c n f(1) have s3: "s3' = s3"
    and r: "r = (case thrown2 of Some e \<Rightarrow> Some e | None \<Rightarrow> thrown3)"
    by (simp_all add: perform_def)
  have close: "flagged s2 \<and> settles thrown2 s1 s2 \<and>
      (all_return s1 \<longrightarrow> thrown2 = None \<and> all_return s2)"
  proof (cases "?len = length (dirtyComponents s1)")
    case True
    with c have "thrown2 = None" "s2 = s1\<lparr>dirtyComponents := []\<rparr>"
      by (simp_all add: NESTED_UPDATES_close_def)
    with f(2) [OF assms(2)] show ?thesis
      by (simp add: flagged_def settles_def all_return_def)
  next
    case False
    let ?v = "s1\<lparr>dirtyComponents := drop ?len (dirtyComponents s1)\<rparr>"
    from False c have fl: "flush ?v = Some (thrown2, s2)"
      by (simp add: NESTED_UPDATES_close_def)
    have fv: "flagged ?v" using f(2) [OF assms(2)] by (simp add: flagged_def)
    have av: "all_return ?v" if "all_return s1"
      using that set_drop_subset [of ?len "dirtyComponents s1"]
      by (auto simp: all_return_def list_all_iff)
    from assms(1) fv fl have "flagged s2" "settles thrown2 ?v s2"
      "all_return ?v \<longrightarrow> thrown2 = None \<and> all_return s2"
      unfolding sound_def by blast+
    with av show ?thesis by (simp add: settles_def)
  qed
  from notifyAll_tasks_flagged [OF conjunct1 [OF close], of CallbackInvoked cq1] n s3
  show "flagged s3" by simp
  have a3: "answers s2 {#} s3"
    using notifyAll_tasks_callbacks_answers [OF n] s3 by simp
  have "settles r s1 s3"
  proof (rule settles_trans [OF conjunct1 [OF conjunct2 [OF close]] settles_answers [OF a3]])
    assume "r = None"
    with r show "thrown2 = None \<and> thrown3 = None" by (cases thrown2) simp_all
  qed
  from settles_trans [OF settles_answers [OF f(3), of None] this]
  show st: "settles r s s3" by simp
  from settles_events [OF st] answers_events [OF f(3)] obtain new1 new where
    "events s1 = events s @ new1" "events s3 = events s @ new"
    by blast
  from settles_events [OF \<open>settles r s1 s3\<close>] have "\<exists>new. events s3 = events s1 @ new" .
  from pass_first_events [OF f(4) this] show "pass_first s s3" .
  show "r = None \<and> all_return s3" if "all_return s"
  proof -
    from f(7) [OF that] have a1: "all_return s1"
      and q: "list_all (\<lambda>(callback, c). task_returns callback) cq1"
      by simp_all
    with close have t2: "thrown2 = None" and a2: "all_return s2" by simp_all
    from notifyAll_tasks_returns [OF q a2, of CallbackInvoked] n s3 r t2 show ?thesis by simp
  qed
qed

lemma flushBatchedUpdates_sound: "sound (flushBatchedUpdates n)"
proof (induction n)
  case 0
  show ?case by (simp add: sound_def)
next
  case (Suc n)
  show ?case
    unfolding sound_def
  proof (intro allI impI)
    fix v r s'
    assume fl: "flagged v" and res: "flushBatchedUpdates (Suc n) v = Some (r, s')"
    let ?goal = "flagged s' \<and> settles r v s' \<and>
        (r = None \<longrightarrow> dirtyComponents s' = [] \<and> \<not> asapEnqueued s') \<and>
        (all_return v \<longrightarrow> r = None \<and> all_return s')"
    have rest: ?goal
      if "flagged s2" and "settles None v s2" and "all_return v \<longrightarrow> all_return s2"
        and "flushBatchedUpdates n s2 = Some (r, s')" for s2
    proof -
      from Suc that(1,4) have "flagged s'" "settles r s2 s'"
        "r = None \<longrightarrow> dirtyComponents s' = [] \<and> \<not> asapEnqueued s'"
        "all_return s2 \<longrightarrow> r = None \<and> all_return s'"
        unfolding sound_def by blast+
      with settles_trans [OF that(2) \<open>settles r s2 s'\<close>, of r] that(3) show ?thesis by simp
    qed
    show ?goal
    proof (cases "dirtyComponents v \<noteq> [] \<or> asapEnqueued v")
      case False
      with res fl show ?thesis by (auto simp: settles_def)
    next
      case True
      define p where "p = (if dirtyComponents v \<noteq> [] then perform (\<lambda>v. flushBatchedUpdates n v) v
               else Some (None, v))"
      from True res obtain r1 s1 where p: "p = Some (r1, s1)"
        by (cases p) (auto simp: p_def)
      have s1: "flagged s1 \<and> settles r1 v s1 \<and> (all_return v \<longrightarrow> r1 = None \<and> all_return s1)"
      proof (cases "dirtyComponents v \<noteq> []")
        case True
        with p have "perform (flushBatchedUpdates n) v = Some (r1, s1)" by (simp add: p_def)
        from perform_sound(1,2,4) [OF Suc fl this] show ?thesis by simp
      next
        case False
        with p fl show ?thesis by (auto simp: p_def settles_def)
      qed
      show ?thesis
      proof (cases r1)
        case (Some e)
        with True res p have "r = Some e" "s' = s1" by (simp_all add: p_def [symmetric])
        with s1 Some show ?thesis by simp
      next
        case None
        show ?thesis
        proof (cases "asapEnqueued s1")
          case False
          with True res p None have "flushBatchedUpdates n s1 = Some (r, s')"
            by (simp add: p_def [symmetric])
          from rest [OF _ _ _ this] s1 None show ?thesis by simp
        next
          case flag: True
          obtain r2 s2 where d: "drain_asap s1 = (r2, s2)" by (cases "drain_asap s1") auto
          from drain_asap_flagged [of s1] d have f2: "flagged s2" by simp
          from drain_asap_settles [OF d] have st2: "settles r2 s1 s2" .
          from drain_asap_returns [of s1] d
          have a2: "all_return s1 \<longrightarrow> r2 = None \<and> all_return s2" by simp
          have st: "settles r2 v s2"
            using settles_trans [OF _ st2, of r1 v r2] s1 None by simp
          show ?thesis
          proof (cases r2)
            case (Some e)
            with True res p None flag d have "r = Some e" "s' = s2"
              by (simp_all add: p_def [symmetric])
            with f2 st Some a2 s1 show ?thesis by simp
          next
            case r2: None
            with True res p None flag d have "flushBatchedUpdates n s2 = Some (r, s')"
              by (simp add: p_def [symmetric])
            from rest [OF f2 _ _ this] st r2 a2 s1 show ?thesis by simp
          qed
        qed
      qed
    qed
  qed
qed

lemma flushBatchedUpdates_pass_first:
  assumes "flagged s" and "flushBatchedUpdates n s = Some (r, s')"
  shows "pass_first s s'"
proof (cases "dirtyComponents s = []")
  case True
  from flushBatchedUpdates_sound [of n] assms have "settles r s s'"
    unfolding sound_def by blast
  from pass_first_idle [OF True settles_events [OF this]] show ?thesis .
next
  case False
  from assms(2) obtain k where n: "n = Suc k" by (cases n) auto
  from False assms(2) obtain r1 s1 where p: "perform (flushBatchedUpdates k) s = Some (r1, s1)"
    unfolding n by (cases "perform (flushBatchedUpdates k) s") auto
  note s1 = perform_sound(1,3) [OF flushBatchedUpdates_sound assms(1) p]
  have later: "pass_first s s'" if "flagged s2" and "\<exists>new. events s2 = events s1 @ new"
    and "flushBatchedUpdates k s2 = Some (r, s')" for s2
  proof -
    from flushBatchedUpdates_sound [of k] that(1,3) have "settles r s2 s'"
      unfolding sound_def by blast
    from pass_first_events [OF pass_first_events [OF s1(2) that(2)] settles_events [OF this]]
    show ?thesis .
  qed
  show ?thesis
  proof (cases r1)
    case (Some e)
    with False assms(2) p have "s' = s1" unfolding n by simp
    with s1(2) show ?thesis by simp
  next
    case None
    show ?thesis
    proof (cases "asapEnqueued s1")
      case False
      with \<open>dirtyComponents s \<noteq> []\<close> assms(2) p None
      have "flushBatchedUpdates k s1 = Some (r, s')" unfolding n by simp
      from later [OF s1(1) _ this] show ?thesis by simp
    next
      case True
      obtain r2 s2 where d: "drain_asap s1 = (r2, s2)" by (cases "drain_asap s1") auto
      from drain_asap_flagged [of s1] d have f2: "flagged s2" by simp
      note e2 = settles_events [OF drain_asap_settles [OF d]]
      show ?thesis
      proof (cases r2)
        case (Some e)
        with False assms(2) p None True d have "s' = s2" unfolding n by simp
        with pass_first_events [OF s1(2) e2] show ?thesis by simp
      next
        case r2: None
        with False assms(2) p None True d have "flushBatchedUpdates k s2 = Some (r, s')"
          unfolding n by simp
        from later [OF f2 e2 this] show ?thesis .
      qed
    qed
  qed
qed

lemma perform_mono:
  assumes "\<And>v r. f v = Some r \<Longrightarrow> g v = Some r" and "perform f s = Some r"
  shows "perform g s = Some r"
proof -
  obtain thrown cq1 s1 where p: "runBatchedUpdates (length (dirtyComponents s)) [] s = (thrown, cq1, s1)"
    by (cases "runBatchedUpdates (length (dirtyComponents s)) [] s") auto
  from assms(2) p obtain c where
    c: "NESTED_UPDATES_close f (length (dirtyComponents s)) s1 = Some c"
    by (cases "NESTED_UPDATES_close f (length (dirtyComponents s)) s1") (auto simp: perform_def)
  then have "NESTED_UPDATES_close g (length (dirtyComponents s)) s1 = Some c"
    using assms(1) by (auto simp: NESTED_UPDATES_close_def split: if_splits)
  with c assms(2) p show ?thesis by (simp add: perform_def)
qed

lemma flushBatchedUpdates_mono:
  "flushBatchedUpdates n s = Some r \<Longrightarrow> n \<le> m \<Longrightarrow> flushBatchedUpdates m s = Some r"
proof (induction n arbitrary: s r m)
  case 0
  then show ?case by simp
next
  case (Suc n)
  from Suc.prems(2) obtain k where m: "m = Suc k" and k: "n \<le> k" by (cases m) auto
  show ?case
  proof (cases "dirtyComponents s \<noteq> [] \<or> asapEnqueued s")
    case False
    with Suc.prems(1) show ?thesis by (simp add: m)
  next
    case True
    define p where "p = (if dirtyComponents s \<noteq> [] then perform (\<lambda>v. flushBatchedUpdates n v) s
               else Some (None, s))"
    define q where "q = (if dirtyComponents s \<noteq> [] then perform (\<lambda>v. flushBatchedUpdates k v) s
               else Some (None, s))"
    from True Suc.prems(1) obtain r1 s1 where p: "p = Some (r1, s1)"
      by (cases p) (auto simp: p_def)
    have q: "q = Some (r1, s1)"
    proof (cases "dirtyComponents s \<noteq> []")
      case True
      with p have pf: "perform (flushBatchedUpdates n) s = Some (r1, s1)" by (simp add: p_def)
      have "perform (flushBatchedUpdates k) s = Some (r1, s1)"
        by (rule perform_mono [OF Suc.IH [OF _ k] pf])
      with True show ?thesis by (simp add: q_def)
    next
      case False
      with p show ?thesis by (simp add: p_def q_def)
    qed
    show ?thesis
    proof (cases r1)
      case (Some e)
      with True Suc.prems(1) p have r: "r = (Some e, s1)"
        by (auto simp: p_def [symmetric])
      from True q Some show ?thesis
        unfolding r by (simp add: m q_def [symmetric])
    next
      case None
      show ?thesis
      proof (cases "asapEnqueued s1")
        case False
        with True Suc.prems(1) p None have "flushBatchedUpdates n s1 = Some r"
          by (simp add: p_def [symmetric])
        from Suc.IH [OF this k] have "flushBatchedUpdates k s1 = Some r" .
        with None True q False show ?thesis
          by (simp add: m q_def [symmetric])
      next
        case flag: True
        obtain r2 s2 where d: "drain_asap s1 = (r2, s2)" by (cases "drain_asap s1") auto
        show ?thesis
        proof (cases r2)
          case (Some e)
          with True Suc.prems(1) p None flag d have r: "r = (Some e, s2)"
            by (auto simp: p_def [symmetric])
          from True q None flag d Some show ?thesis
            unfolding r by (simp add: m q_def [symmetric])
        next
          case r2: None
          with True Suc.prems(1) p None flag d have "flushBatchedUpdates n s2 = Some r"
            by (simp add: p_def [symmetric])
          from Suc.IH [OF this k] have "flushBatchedUpdates k s2 = Some r" .
          with None True q flag d r2 show ?thesis
            by (simp add: m q_def [symmetric])
        qed
      qed
    qed
  qed
qed


lemma idle_pending:
  assumes "dirtyComponents s = []" and "\<not> asapEnqueued s" and "flagged s"
  shows "pending_work s = 0"
  using assms by (simp add: pending_work_def asap_work_def flagged_def)

lemma flushBatchedUpdates_returns:
  "flagged s \<Longrightarrow> \<exists>n r s'. flushBatchedUpdates n s = Some (r, s')"
proof (induction s rule: measure_induct_rule [where f = pending_work])
  case (less s)
  have drain: "\<exists>n r s'. \<forall>m \<ge> n.
      (if asapEnqueued s1 then
         (case drain_asap s1 of
            (Some e, s2) \<Rightarrow> Some (Some e, s2)
          | (None, s2) \<Rightarrow> flushBatchedUpdates m s2)
       else flushBatchedUpdates m s1) = Some (r, s')"
    if f1: "flagged s1" and w1: "pending_work s1 < pending_work s \<or> (asapEnqueued s1 \<and> s1 = s)"
    for s1
  proof (cases "asapEnqueued s1")
    case False
    with w1 have "pending_work s1 < pending_work s" by auto
    from less.IH [OF this f1] obtain n r s' where n: "flushBatchedUpdates n s1 = Some (r, s')"
      by blast
    from flushBatchedUpdates_mono [OF n] False show ?thesis by auto
  next
    case True
    obtain r2 s2 where d: "drain_asap s1 = (r2, s2)" by (cases "drain_asap s1") auto
    show ?thesis
    proof (cases r2)
      case (Some e)
      with True d show ?thesis by auto
    next
      case None
      from drain_asap_flagged [of s1] d have f2: "flagged s2" by simp
      from drain_asap_pending [OF True] d w1 have "pending_work s2 < pending_work s" by auto
      from less.IH [OF this f2] obtain n r s' where n: "flushBatchedUpdates n s2 = Some (r, s')"
        by blast
      from flushBatchedUpdates_mono [OF n] True d None show ?thesis by auto
    qed
  qed
  show ?case
  proof (cases "dirtyComponents s = []")
    case True
    show ?thesis
    proof (cases "asapEnqueued s")
      case False
      with True have "flushBatchedUpdates (Suc 0) s = Some (None, s)" by simp
      then show ?thesis by blast
    next
      case flag: True
      from drain [of s] less.prems flag obtain n r s' where
        "(case drain_asap s of
            (Some e, s2) \<Rightarrow> Some (Some e, s2)
          | (None, s2) \<Rightarrow> flushBatchedUpdates n s2) = Some (r, s')"
        by auto
      with True flag have "flushBatchedUpdates (Suc n) s = Some (r, s')" by simp
      then show ?thesis by blast
    qed
  next
    case False
    let ?len = "length (dirtyComponents s)"
    obtain thrown cq1 s1 where p: "runBatchedUpdates ?len [] s = (thrown, cq1, s1)"
      by (cases "runBatchedUpdates ?len [] s") auto
    note f = runBatchedUpdates_pass [OF p]
    have pos: "0 < ?len" using False by simp
    have "\<exists>n1 thrown2 s2.
        (\<forall>n \<ge> n1. NESTED_UPDATES_close (flushBatchedUpdates n) ?len s1 = Some (thrown2, s2)) \<and>
        flagged s2 \<and>
        (thrown2 = None \<longrightarrow>
          pending_work s2 + sum_list (map (\<lambda>(callback, c). task_weight callback) cq1)
            < pending_work s)"
    proof (cases "?len = length (dirtyComponents s1)")
      case True
      let ?s2 = "s1\<lparr>dirtyComponents := []\<rparr>"
      have "\<forall>n \<ge> 0. NESTED_UPDATES_close (flushBatchedUpdates n) ?len s1 = Some (None, ?s2)"
        using True by (simp add: NESTED_UPDATES_close_def)
      moreover have "flagged ?s2" using f(2) [OF less.prems] by (simp add: flagged_def)
      moreover have "pending_work ?s2 = asap_work s1"
        by (simp add: pending_work_def asap_work_def)
      then have "pending_work ?s2 + sum_list (map (\<lambda>(callback, c). task_weight callback) cq1)
          < pending_work s"
        using f(6) pos by linarith
      ultimately show ?thesis by blast
    next
      case ne: False
      let ?v = "s1\<lparr>dirtyComponents := drop ?len (dirtyComponents s1)\<rparr>"
      have fv: "flagged ?v" using f(2) [OF less.prems] by (simp add: flagged_def)
      have "pending_work ?v =
          sum_list (map component_weight (drop ?len (dirtyComponents s1))) + asap_work s1"
        by (simp add: pending_work_def asap_work_def)
      then have "pending_work ?v + sum_list (map (\<lambda>(callback, c). task_weight callback) cq1) +
          ?len \<le> pending_work s"
        using f(6) by linarith
      with pos have lt: "pending_work ?v < pending_work s" by linarith
      from less.IH [OF lt fv] obtain n1 thrown2 s2 where
        n1: "flushBatchedUpdates n1 ?v = Some (thrown2, s2)"
        by blast
      from flushBatchedUpdates_sound [of n1] fv n1
      have s2: "flagged s2" "thrown2 = None \<longrightarrow> dirtyComponents s2 = [] \<and> \<not> asapEnqueued s2"
        unfolding sound_def by blast+
      have "\<forall>n \<ge> n1. NESTED_UPDATES_close (flushBatchedUpdates n) ?len s1 = Some (thrown2, s2)"
        using ne flushBatchedUpdates_mono [OF n1] by (simp add: NESTED_UPDATES_close_def)
      moreover have "pending_work s2 + sum_list (map (\<lambda>(callback, c). task_weight callback) cq1)
          < pending_work s" if "thrown2 = None"
      proof -
        from that s2 have "pending_work s2 = 0" by (simp add: idle_pending)
        with f(6) pos show ?thesis by linarith
      qed
      ultimately show ?thesis using s2(1) by blast
    qed
    then obtain n1 thrown2 s2 where
      c: "\<And>n. n1 \<le> n \<Longrightarrow>
            NESTED_UPDATES_close (flushBatchedUpdates n) ?len s1 = Some (thrown2, s2)"
      and f2: "flagged s2"
      and w2: "thrown2 = None \<Longrightarrow>
          pending_work s2 + sum_list (map (\<lambda>(callback, c). task_weight callback) cq1)
            < pending_work s"
      by blast
    obtain thrown3 s3 where nt: "notifyAll_tasks CallbackInvoked cq1 s2 = (thrown3, s3)"
      by (cases "notifyAll_tasks CallbackInvoked cq1 s2") auto
    define r1 where "r1 = (case thrown2 of Some e \<Rightarrow> Some e | None \<Rightarrow> thrown3)"
    have pf: "perform (flushBatchedUpdates n) s = Some (r1, s3)" if "n1 \<le> n" for n
      using p f(1) c [OF that] nt by (simp add: perform_def r1_def)
    have f3: "flagged s3" using notifyAll_tasks_flagged [OF f2, of CallbackInvoked cq1] nt by simp
    show ?thesis
    proof (cases r1)
      case (Some e)
      with pf [of n1] False have "flushBatchedUpdates (Suc n1) s = Some (Some e, s3)" by simp
      then show ?thesis by blast
    next
      case None
      then have "thrown2 = None" by (cases thrown2) (simp_all add: r1_def)
      from w2 [OF this] notifyAll_tasks_pending [of CallbackInvoked cq1 s2] nt
      have w3: "pending_work s3 < pending_work s" by simp
      from drain [of s3] f3 w3 obtain n2 r s' where
        n2: "\<And>m. n2 \<le> m \<Longrightarrow>
          (if asapEnqueued s3 then
             (case drain_asap s3 of
                (Some e, s2) \<Rightarrow> Some (Some e, s2)
              | (None, s2) \<Rightarrow> flushBatchedUpdates m s2)
           else flushBatchedUpdates m s3) = Some (r, s')"
        by blast
      from pf [of "max n1 n2"] n2 [of "max n1 n2"] False None
      have "flushBatchedUpdates (Suc (max n1 n2)) s = Some (r, s')"
        by simp
      then show ?thesis by blast
    qed
  qed
qed


lemma run_requests_defers:
  "\<exists>new added. events (run_requests rs s) = events s @ new \<and> asap_invoked new = {#} \<and>
     asapCallbackQueue (run_requests rs s) = asapCallbackQueue s @ added \<and>
     mset (map fst added) = asap_called new \<and>
     asapEnqueued (run_requests rs s) = (asapEnqueued s \<or> added \<noteq> [])"
proof (induction rs arbitrary: s)
  case Nil
  show ?case by simp
next
  case (Cons r rs)
  show ?case
  proof (cases r)
    case (Asap t c)
    from Cons [of "asap t c s"] obtain new added where
      "events (run_requests rs (asap t c s)) = events s @ AsapCalled t # new"
      "asap_invoked new = {#}"
      "asapCallbackQueue (run_requests rs (asap t c s)) = asapCallbackQueue s @ (t, c) # added"
      "mset (map fst added) = asap_called new"
      "asapEnqueued (run_requests rs (asap t c s))"
      by (auto simp: asap_def)
    with Asap show ?thesis
      by (intro exI [of _ "AsapCalled t # new"] exI [of _ "(t, c) # added"]) simp
  next
    case (EnqueueUpdate d)
    from Cons [of "enqueueUpdate d s"] EnqueueUpdate show ?thesis
      by (simp add: enqueueUpdate_def)
  qed
qed

lemma notifyAll_tasks_defers:
  "notifyAll_tasks AsapInvoked q s = (r, s') \<Longrightarrow>
   \<exists>new added lost. events s' = events s @ new \<and>
     asap_invoked new + lost = mset (map fst q) \<and> (r = None \<longrightarrow> lost = {#}) \<and>
     asapCallbackQueue s' = asapCallbackQueue s @ added \<and>
     mset (map fst added) = asap_called new \<and>
     asapEnqueued s' = (asapEnqueued s \<or> added \<noteq> [])"
proof (induction q arbitrary: s)
  case Nil
  then show ?case by simp
next
  case (Cons p q)
  obtain t c where p: "p = (t, c)" by (cases p)
  let ?s0 = "s\<lparr>events := events s @ [AsapInvoked t]\<rparr>"
  let ?s1 = "run_requests (task_body t) ?s0"
  from run_requests_defers [of "task_body t" ?s0] obtain new1 added1 where
    1: "events ?s1 = events s @ AsapInvoked t # new1" "asap_invoked new1 = {#}"
    "asapCallbackQueue ?s1 = asapCallbackQueue s @ added1"
    "mset (map fst added1) = asap_called new1"
    "asapEnqueued ?s1 = (asapEnqueued s \<or> added1 \<noteq> [])"
    by auto
  show ?case
  proof (cases "task_thrown t")
    case (Some e)
    with Cons.prems p have "s' = ?s1" "r = Some e" by simp_all
    with 1 show ?thesis
      unfolding p
      by (intro exI [of _ "AsapInvoked t # new1"] exI [of _ added1] exI [of _ "mset (map fst q)"])
         simp
  next
    case None
    with Cons.prems p have "notifyAll_tasks AsapInvoked q ?s1 = (r, s')" by simp
    from Cons.IH [OF this] obtain new2 added2 lost where
      2: "events s' = events ?s1 @ new2"
      "asap_invoked new2 + lost = mset (map fst q)" "r = None \<longrightarrow> lost = {#}"
      "asapCallbackQueue s' = asapCallbackQueue ?s1 @ added2"
      "mset (map fst added2) = asap_called new2"
      "asapEnqueued s' = (asapEnqueued ?s1 \<or> added2 \<noteq> [])"
      by blast
    show ?thesis
      unfolding p
      using 1(4) 2(2,5)
      by (intro exI [of _ "AsapInvoked t # new1 @ new2"] exI [of _ "added1 @ added2"]
            exI [of _ lost])
         (simp add: 1(1-3,5) 2(1,3,4,6) asap_invoked_append asap_called_append)
  qed
qed

lemma drain_asap_defers:
  "\<exists>during. events (snd (drain_asap s)) = events s @ during \<and>
     asap_invoked during \<subseteq># mset (map fst (asapCallbackQueue s)) \<and>
     (fst (drain_asap s) = None \<longrightarrow> asap_invoked during = mset (map fst (asapCallbackQueue s))) \<and>
     mset (map fst (asapCallbackQueue (snd (drain_asap s)))) = asap_called during \<and>
     asapEnqueued (snd (drain_asap s)) = (asapCallbackQueue (snd (drain_asap s)) \<noteq> [])"
proof -
  let ?s0 = "s\<lparr>asapEnqueued := False, asapCallbackQueue := []\<rparr>"
  obtain r s' where d: "notifyAll_tasks AsapInvoked (asapCallbackQueue s) ?s0 = (r, s')"
    by (cases "notifyAll_tasks AsapInvoked (asapCallbackQueue s) ?s0") auto
  from notifyAll_tasks_defers [OF d] obtain new added lost where
    n: "events s' = events s @ new"
    "asap_invoked new + lost = mset (map fst (asapCallbackQueue s))" "r = None \<longrightarrow> lost = {#}"
    "asapCallbackQueue s' = added" "mset (map fst added) = asap_called new"
    "asapEnqueued s' = (added \<noteq> [])"
    by auto
  have "asap_invoked new \<subseteq># mset (map fst (asapCallbackQueue s))"
    using n(2) mset_subset_eq_add_left [of "asap_invoked new" lost] by simp
  moreover have "r = None \<longrightarrow> asap_invoked new = mset (map fst (asapCallbackQueue s))"
    using n(2,3) by auto
  ultimately show ?thesis
    using n(1,4,5,6) d by (intro exI [of _ new]) (simp add: drain_asap_def)
qed

lemma busy_flushed:
  "flushBatchedUpdates 4 busy =
     Some (None, snd (the (flushBatchedUpdates 4 busy)))"
  by code_simp

lemma busy_events:
  "events busy = [AsapCalled (Task 24 [] None)]"
  "asapEnqueued busy"
  "map fst (asapCallbackQueue busy) = [Task 24 [] None]"
  "all_return busy"
  by code_simp+

lemma busy_flushed_events:
  "events (snd (the (flushBatchedUpdates 4 busy))) =
     [AsapCalled (Task 24 [] None),
      Reconciled 1, Reconciled 2, AsapCalled (Task 22 [Asap (Task 23 [] None) 0] None),
      Reconciled 3,
      AsapInvoked (Task 24 [] None), AsapInvoked (Task 22 [Asap (Task 23 [] None) 0] None),
      AsapCalled (Task 23 [] None), AsapInvoked (Task 23 [] None),
      CallbackInvoked (Task 20 [Asap (Task 21 [] None) 0] None), AsapCalled (Task 21 [] None),
      AsapInvoked (Task 21 [] None)]"
  by code_simp




end
